theory Spec2Isabelle
  imports Complex_Main "HOL-Library.Char_ord" "HOL-Library.List_Lexorder" "HOL-Library.Sublist"
begin

section \<open>Values read from the logs\<close>

text \<open>
  Every record of a session log, every cached summary and every facet is what
  \<^verbatim>\<open>json.loads\<close> returns: \<^verbatim>\<open>None\<close>, a bool, a number, a string, a list or a
  dict. A dict is the association list of its items in insertion order (a key is looked
  up by its first entry). Numbers are Python's unbounded integers; a number with a
  fraction or an exponent (a Python float) is outside the model. One \<open>char\<close> stands for
  one character of a Python string, so \<open>length\<close> is Python's \<^verbatim>\<open>len\<close> and \<open>take n\<close> is the
  slice \<^verbatim>\<open>[:n]\<close>.
\<close>

datatype json =
    JNull
  | JBool bool
  | JInt int
  | JStr string
  | JArr "json list"
  | JObj "(string \<times> json) list"

text \<open>The exceptions the scripts can raise, by the name of their class.\<close>

datatype error =
    AttributeError
  | TypeError
  | KeyError
  | ValueError
  | JSONDecodeError
  | RecursionError
  | UnicodeDecodeError
  | SystemExit

text \<open>
  The parts of the Python runtime the scripts call and that are not code of the
  repository. \<^verbatim>\<open>json.loads\<close> of a string returns a value or raises: \<^verbatim>\<open>JSONDecodeError\<close> on
  text that is not JSON, and other exceptions on text the parser gives up on
  (\<^verbatim>\<open>RecursionError\<close> on deep nesting, \<^verbatim>\<open>ValueError\<close> on an integer with too many digits).
  \<^verbatim>\<open>json.load\<close> of a file opened with the default encoding does the same on the content
  of the file, after decoding it (\<^verbatim>\<open>UnicodeDecodeError\<close> on bytes that do not decode).
  \<^verbatim>\<open>str()\<close> is used on values that are not strings, and \<^verbatim>\<open>min\<close>, \<^verbatim>\<open>max\<close> and \<^verbatim>\<open>sorted\<close>
  on lists of parsed values (\<open>None\<close> is the \<^verbatim>\<open>TypeError\<close> of an unsupported comparison).
\<close>

record python =
  json_loads :: "string \<Rightarrow> error + json"
  json_load :: "string \<Rightarrow> error + json"
  repr_of :: "json \<Rightarrow> string"
  min_of :: "json list \<Rightarrow> json option"
  max_of :: "json list \<Rightarrow> json option"
  sorted_of :: "json list \<Rightarrow> json list option"

fun truthy :: "json \<Rightarrow> bool" where
  "truthy JNull = False"
| "truthy (JBool b) = b"
| "truthy (JInt n) = (n \<noteq> 0)"
| "truthy (JStr s) = (s \<noteq> [])"
| "truthy (JArr xs) = (xs \<noteq> [])"
| "truthy (JObj kvs) = (kvs \<noteq> [])"

definition dict_get :: "(string \<times> json) list \<Rightarrow> string \<Rightarrow> json \<Rightarrow> json" where
  "dict_get kvs k d = (case map_of kvs k of None \<Rightarrow> d | Some v \<Rightarrow> v)"

text \<open>\<^verbatim>\<open>x.get(k, d)\<close>: only a dict has the method.\<close>

fun get :: "json \<Rightarrow> string \<Rightarrow> json \<Rightarrow> error + json" where
  "get (JObj kvs) k d = Inr (dict_get kvs k d)"
| "get _ k d = Inl AttributeError"

definition py_str :: "python \<Rightarrow> json \<Rightarrow> string" where
  "py_str rt v = (case v of JStr s \<Rightarrow> s | _ \<Rightarrow> repr_of rt v)"

text \<open>
  \<^verbatim>\<open>str.strip()\<close> removes leading and trailing whitespace; among the characters below
  256 Python's whitespace is 9 to 13, 28 to 32, 133 and 160.
\<close>

definition is_space :: "char \<Rightarrow> bool" where
  "is_space c = ((of_char c :: nat) \<in> set [9, 10, 11, 12, 13, 28, 29, 30, 31, 32, 133, 160])"

definition strip :: "string \<Rightarrow> string" where
  "strip s = rev (dropWhile is_space (rev (dropWhile is_space s)))"

fun join_spaces :: "string list \<Rightarrow> string" where
  "join_spaces [] = []"
| "join_spaces [t] = t"
| "join_spaces (t # ts) = t @ '' '' @ join_spaces ts"

section \<open>Stage 1: the session compactor (preprocess.py)\<close>

definition MAX_TEXT_PER_MESSAGE :: nat where "MAX_TEXT_PER_MESSAGE = 500"
definition MAX_TOOL_RESULT_CHARS :: nat where "MAX_TOOL_RESULT_CHARS = 200"
definition MAX_CONVERSATION_EXCHANGES :: nat where "MAX_CONVERSATION_EXCHANGES = 40"
definition MAX_TOOL_DETAILS :: nat where "MAX_TOOL_DETAILS = 30"
definition MAX_FILES_TOUCHED :: nat where "MAX_FILES_TOUCHED = 30"

subsection \<open>extract_text_from_content\<close>

definition thinking_preview :: "string \<Rightarrow> string" where
  "thinking_preview thinking = take 150 thinking"

text \<open>What one block of a content list appends to \<^verbatim>\<open>texts\<close>: nothing or one string.\<close>

fun block_texts :: "python \<Rightarrow> nat \<Rightarrow> json \<Rightarrow> string list" where
  "block_texts rt max_chars (JStr s) = [take max_chars s]"
| "block_texts rt max_chars (JObj kvs) =
     (if dict_get kvs ''type'' JNull = JStr ''text''
      then [take max_chars (py_str rt (dict_get kvs ''text'' (JStr [])))]
      else if dict_get kvs ''type'' JNull = JStr ''thinking''
      then (let thinking = py_str rt (dict_get kvs ''thinking'' (JStr []))
            in if thinking \<noteq> []
               then [''[thinking: '' @ thinking_preview thinking @ ''...]'']
               else [])
      else [])"
| "block_texts rt max_chars _ = []"

definition content_texts :: "python \<Rightarrow> nat \<Rightarrow> json \<Rightarrow> string list" where
  "content_texts rt max_chars content =
     (case content of JArr blocks \<Rightarrow> concat (map (block_texts rt max_chars) blocks) | _ \<Rightarrow> [])"

definition extract_text_from_content :: "python \<Rightarrow> json \<Rightarrow> nat \<Rightarrow> string" where
  "extract_text_from_content rt content max_chars =
     (case content of
        JStr s \<Rightarrow> take max_chars s
      | _ \<Rightarrow> join_spaces (content_texts rt max_chars content))"

subsection \<open>extract_tool_calls\<close>

text \<open>
  A tool record is the dict \<^verbatim>\<open>tool_info\<close>: its \<^verbatim>\<open>name\<close> and, in insertion order, the
  detail keys set for that name with their strings.
\<close>

record tool_info =
  name :: json
  details :: "(string \<times> string) list"

definition cap_str :: "python \<Rightarrow> nat \<Rightarrow> json \<Rightarrow> string" where
  "cap_str rt n v = take n (py_str rt v)"

definition tool_details_of :: "python \<Rightarrow> json \<Rightarrow> json \<Rightarrow> error + (string \<times> string) list" where
  "tool_details_of rt nm inp =
     (if nm \<in> {JStr ''Read'', JStr ''Glob'', JStr ''Grep''} then
        (case inp of
           JObj kvs \<Rightarrow>
             Inr [(''target'', cap_str rt MAX_TOOL_RESULT_CHARS
                     (dict_get kvs ''file_path''
                        (dict_get kvs ''pattern'' (dict_get kvs ''path'' (JStr [])))))]
         | _ \<Rightarrow> Inl AttributeError)
      else if nm \<in> {JStr ''Edit'', JStr ''Write''} then
        (case inp of
           JObj kvs \<Rightarrow>
             Inr [(''target'', cap_str rt MAX_TOOL_RESULT_CHARS (dict_get kvs ''file_path'' (JStr [])))]
         | _ \<Rightarrow> Inl AttributeError)
      else if nm = JStr ''Bash'' then
        (case inp of
           JObj kvs \<Rightarrow>
             Inr [(''command'', cap_str rt MAX_TOOL_RESULT_CHARS (dict_get kvs ''command'' (JStr [])))]
         | _ \<Rightarrow> Inl AttributeError)
      else if nm = JStr ''WebSearch'' then
        (case inp of
           JObj kvs \<Rightarrow>
             Inr [(''query'', cap_str rt MAX_TOOL_RESULT_CHARS (dict_get kvs ''query'' (JStr [])))]
         | _ \<Rightarrow> Inl AttributeError)
      else if nm = JStr ''WebFetch'' then
        (case inp of
           JObj kvs \<Rightarrow>
             Inr [(''url'', cap_str rt MAX_TOOL_RESULT_CHARS (dict_get kvs ''url'' (JStr [])))]
         | _ \<Rightarrow> Inl AttributeError)
      else if nm = JStr ''Task'' then
        (case inp of
           JObj kvs \<Rightarrow>
             Inr [(''description'', cap_str rt 100 (dict_get kvs ''description'' (JStr []))),
                  (''subagent_type'', py_str rt (dict_get kvs ''subagent_type'' (JStr [])))]
         | _ \<Rightarrow> Inl AttributeError)
      else if nm \<in> {JStr ''TaskCreate'', JStr ''TaskUpdate''} then
        (case inp of
           JObj kvs \<Rightarrow>
             Inr [(''subject'', cap_str rt 100
                     (dict_get kvs ''subject'' (dict_get kvs ''status'' (JStr []))))]
         | _ \<Rightarrow> Inl AttributeError)
      else Inr [])"

definition is_tool_use :: "json \<Rightarrow> bool" where
  "is_tool_use block =
     (case block of JObj kvs \<Rightarrow> dict_get kvs ''type'' JNull = JStr ''tool_use'' | _ \<Rightarrow> False)"

definition tool_of_block :: "python \<Rightarrow> json \<Rightarrow> error + tool_info" where
  "tool_of_block rt block =
     (case block of
        JObj kvs \<Rightarrow>
          (let nm = dict_get kvs ''name'' (JStr ''unknown'');
               inp = dict_get kvs ''input'' (JObj [])
           in case tool_details_of rt nm inp of
                Inl e \<Rightarrow> Inl e
              | Inr ds \<Rightarrow> Inr \<lparr>name = nm, details = ds\<rparr>)
      | _ \<Rightarrow> Inl AttributeError)"

fun tools_of_blocks :: "python \<Rightarrow> json list \<Rightarrow> error + tool_info list" where
  "tools_of_blocks rt [] = Inr []"
| "tools_of_blocks rt (block # blocks) =
     (if is_tool_use block
      then (case tool_of_block rt block of
              Inl e \<Rightarrow> Inl e
            | Inr t \<Rightarrow> (case tools_of_blocks rt blocks of
                          Inl e \<Rightarrow> Inl e
                        | Inr ts \<Rightarrow> Inr (t # ts)))
      else tools_of_blocks rt blocks)"

definition extract_tool_calls :: "python \<Rightarrow> json \<Rightarrow> error + tool_info list" where
  "extract_tool_calls rt content =
     (case content of JArr blocks \<Rightarrow> tools_of_blocks rt blocks | _ \<Rightarrow> Inr [])"

subsection \<open>process_session: the pass over the lines\<close>

text \<open>
  The local variables of \<^verbatim>\<open>process_session\<close>. \<^verbatim>\<open>tool_usage\<close> is the \<^verbatim>\<open>Counter\<close>, kept as
  the list of its items in insertion order; \<^verbatim>\<open>models_used\<close> is the set of models, kept
  as the list of its elements in insertion order; \<^verbatim>\<open>git_branch\<close> starts as \<^verbatim>\<open>None\<close>.
\<close>

record session_state =
  timestamps :: "json list"
  user_messages :: "string list"
  assistant_texts :: "string list"
  tool_usage :: "(json \<times> nat) list"
  tool_details :: "tool_info list"
  files_touched :: "string set"
  models_used :: "json list"
  total_input_tokens :: int
  total_output_tokens :: int
  has_summary :: bool
  git_branch :: json
  lines_processed :: nat
  lines_skipped :: nat

definition initial_state :: session_state where
  "initial_state =
     \<lparr>timestamps = [], user_messages = [], assistant_texts = [], tool_usage = [],
      tool_details = [], files_touched = {}, models_used = [], total_input_tokens = 0,
      total_output_tokens = 0, has_summary = False, git_branch = JNull,
      lines_processed = 0, lines_skipped = 0\<rparr>"

text \<open>
  Keys of a dict or a set are hashed: a list or a dict as key raises \<^verbatim>\<open>TypeError\<close>, and
  \<^verbatim>\<open>True\<close> and \<^verbatim>\<open>1\<close> (\<^verbatim>\<open>False\<close> and \<^verbatim>\<open>0\<close>) are the same key.
\<close>

fun hashable :: "json \<Rightarrow> bool" where
  "hashable (JArr xs) = False"
| "hashable (JObj kvs) = False"
| "hashable _ = True"

fun key_of :: "json \<Rightarrow> json" where
  "key_of (JBool b) = JInt (if b then 1 else 0)"
| "key_of v = v"

definition same_key :: "json \<Rightarrow> json \<Rightarrow> bool" where
  "same_key a b = (key_of a = key_of b)"

text \<open>\<^verbatim>\<open>counter[k] += 1\<close> on a hashable key.\<close>

fun counter_incr :: "(json \<times> nat) list \<Rightarrow> json \<Rightarrow> (json \<times> nat) list" where
  "counter_incr [] k = [(k, 1)]"
| "counter_incr ((k', c) # rest) k =
     (if same_key k' k then (k', c + 1) # rest else (k', c) # counter_incr rest k)"

text \<open>\<^verbatim>\<open>counter.get(k, 0)\<close> on a hashable key.\<close>

fun counter_get :: "(json \<times> nat) list \<Rightarrow> json \<Rightarrow> nat" where
  "counter_get [] k = 0"
| "counter_get ((k', c) # rest) k = (if same_key k' k then c else counter_get rest k)"

definition set_add :: "json list \<Rightarrow> json \<Rightarrow> json list" where
  "set_add xs v = (if \<exists>x \<in> set xs. same_key x v then xs else xs @ [v])"

text \<open>\<^verbatim>\<open>total += v\<close> for an integer total: a bool counts as 0 or 1, anything else raises.\<close>

fun add_int :: "int \<Rightarrow> json \<Rightarrow> error + int" where
  "add_int acc (JInt n) = Inr (acc + n)"
| "add_int acc (JBool b) = Inr (acc + (if b then 1 else 0))"
| "add_int acc _ = Inl TypeError"

definition tool_target :: "tool_info \<Rightarrow> string" where
  "tool_target tool = (case map_of (details tool) ''target'' of None \<Rightarrow> [] | Some t \<Rightarrow> t)"

text \<open>The body of \<^verbatim>\<open>for tool in tools\<close>.\<close>

definition record_tool :: "session_state \<Rightarrow> tool_info \<Rightarrow> error + session_state" where
  "record_tool st tool =
     (if \<not> hashable (name tool) then Inl TypeError
      else
        let st1 = st\<lparr>tool_usage := counter_incr (tool_usage st) (name tool)\<rparr>;
            target = tool_target tool;
            st2 = (if target \<noteq> [] \<and> CHR ''/'' \<in> set target
                   then st1\<lparr>files_touched := insert target (files_touched st1)\<rparr>
                   else st1)
        in Inr (if length (tool_details st2) < MAX_TOOL_DETAILS
                then st2\<lparr>tool_details := tool_details st2 @ [tool]\<rparr>
                else st2))"

fun record_tools :: "session_state \<Rightarrow> tool_info list \<Rightarrow> error + session_state" where
  "record_tools st [] = Inr st"
| "record_tools st (tool # tools) =
     (case record_tool st tool of Inl e \<Rightarrow> Inl e | Inr st' \<Rightarrow> record_tools st' tools)"

definition context_summary :: "python \<Rightarrow> json \<Rightarrow> string" where
  "context_summary rt summary_text =
     ''[CONTEXT SUMMARY: '' @ take 1000 (py_str rt summary_text) @ '']''"

definition on_summary :: "python \<Rightarrow> session_state \<Rightarrow> (string \<times> json) list \<Rightarrow> session_state" where
  "on_summary rt st obj =
     (let st1 = st\<lparr>has_summary := True\<rparr>;
          summary_text = dict_get obj ''summary'' (JStr [])
      in if truthy summary_text
         then st1\<lparr>assistant_texts := assistant_texts st1 @ [context_summary rt summary_text]\<rparr>
         else st1)"

definition on_user :: "python \<Rightarrow> session_state \<Rightarrow> (string \<times> json) list \<Rightarrow> error + session_state" where
  "on_user rt st obj =
     (case get (dict_get obj ''message'' (JObj [])) ''content'' (JStr []) of
        Inl e \<Rightarrow> Inl e
      | Inr content \<Rightarrow>
          (let text = extract_text_from_content rt content MAX_TEXT_PER_MESSAGE
           in Inr (if strip text \<noteq> []
                   then st\<lparr>user_messages := user_messages st @ [text]\<rparr>
                   else st)))"

definition on_assistant :: "python \<Rightarrow> session_state \<Rightarrow> (string \<times> json) list \<Rightarrow> error + session_state" where
  "on_assistant rt st obj =
     (case dict_get obj ''message'' (JObj []) of
        JObj msg \<Rightarrow>
          (let content = dict_get msg ''content'' (JArr []);
               model = dict_get msg ''model'' (JStr [])
           in if truthy model \<and> \<not> hashable model then Inl TypeError
              else
                let st1 = (if truthy model
                           then st\<lparr>models_used := set_add (models_used st) model\<rparr>
                           else st);
                    usage = dict_get msg ''usage'' (JObj [])
                in case get usage ''input_tokens'' (JInt 0) of
                     Inl e \<Rightarrow> Inl e
                   | Inr i \<Rightarrow>
                  (case add_int (total_input_tokens st1) i of
                     Inl e \<Rightarrow> Inl e
                   | Inr ti \<Rightarrow>
                  (case get usage ''output_tokens'' (JInt 0) of
                     Inl e \<Rightarrow> Inl e
                   | Inr ou \<Rightarrow>
                  (case add_int (total_output_tokens st1) ou of
                     Inl e \<Rightarrow> Inl e
                   | Inr tou \<Rightarrow>
                  (let st2 = st1\<lparr>total_input_tokens := ti, total_output_tokens := tou\<rparr>;
                       text = extract_text_from_content rt content MAX_TEXT_PER_MESSAGE;
                       st3 = (if strip text \<noteq> []
                              then st2\<lparr>assistant_texts := assistant_texts st2 @ [text]\<rparr>
                              else st2)
                   in case extract_tool_calls rt content of
                        Inl e \<Rightarrow> Inl e
                      | Inr tools \<Rightarrow> record_tools st3 tools)))))
      | _ \<Rightarrow> Inl AttributeError)"

text \<open>One parsed record: the body of the loop after \<^verbatim>\<open>lines_processed += 1\<close>.\<close>

definition process_record :: "python \<Rightarrow> session_state \<Rightarrow> json \<Rightarrow> error + session_state" where
  "process_record rt st obj =
     (case obj of
        JObj kvs \<Rightarrow>
          (let msg_type = dict_get kvs ''type'' JNull;
               timestamp = dict_get kvs ''timestamp'' JNull;
               st1 = (if truthy timestamp
                      then st\<lparr>timestamps := timestamps st @ [timestamp]\<rparr>
                      else st);
               st2 = (if \<not> truthy (git_branch st1) \<and> truthy (dict_get kvs ''gitBranch'' JNull)
                      then st1\<lparr>git_branch := dict_get kvs ''gitBranch'' JNull\<rparr>
                      else st1)
           in if msg_type = JStr ''summary'' then Inr (on_summary rt st2 kvs)
              else if msg_type = JStr ''user'' then on_user rt st2 kvs
              else if msg_type = JStr ''assistant'' then on_assistant rt st2 kvs
              else Inr st2)
      | _ \<Rightarrow> Inl AttributeError)"

text \<open>
  One line of the file: a blank line is passed over, a line on which \<^verbatim>\<open>json.loads\<close> raises
  \<^verbatim>\<open>JSONDecodeError\<close> is counted, and any other exception of \<^verbatim>\<open>json.loads\<close> leaves the
  function.
\<close>

definition process_line :: "python \<Rightarrow> session_state \<Rightarrow> string \<Rightarrow> error + session_state" where
  "process_line rt st line =
     (let line' = strip line
      in if line' = [] then Inr st
         else case json_loads rt line' of
                Inl e \<Rightarrow>
                  (if e = JSONDecodeError then Inr (st\<lparr>lines_skipped := lines_skipped st + 1\<rparr>)
                   else Inl e)
              | Inr obj \<Rightarrow> process_record rt (st\<lparr>lines_processed := lines_processed st + 1\<rparr>) obj)"

fun process_lines :: "python \<Rightarrow> session_state \<Rightarrow> string list \<Rightarrow> error + session_state" where
  "process_lines rt st [] = Inr st"
| "process_lines rt st (line # rest) =
     (case process_line rt st line of Inl e \<Rightarrow> Inl e | Inr st' \<Rightarrow> process_lines rt st' rest)"

subsection \<open>process_session: the conversation flow and the summary\<close>

record turn =
  role :: string
  turn_text :: string

text \<open>The \<^verbatim>\<open>while\<close> loop that builds \<^verbatim>\<open>conversation_flow\<close>, on its own loop variables.\<close>

function flow_loop ::
  "string list \<Rightarrow> string list \<Rightarrow> nat \<Rightarrow> nat \<Rightarrow> nat \<Rightarrow> turn list \<Rightarrow> turn list" where
  "flow_loop users assts user_idx asst_idx exchange_count flow =
     (if user_idx < length users \<and> exchange_count < MAX_CONVERSATION_EXCHANGES then
        (let flow1 = flow @ [\<lparr>role = ''user'', turn_text = users ! user_idx\<rparr>]
         in if asst_idx < length assts
            then flow_loop users assts (user_idx + 1) (asst_idx + 1) (exchange_count + 1)
                   (flow1 @ [\<lparr>role = ''assistant'', turn_text = assts ! asst_idx\<rparr>])
            else flow_loop users assts (user_idx + 1) asst_idx (exchange_count + 1) flow1)
      else flow)"
  by pat_completeness auto
termination
  by (relation "measure (\<lambda>(users, assts, user_idx, asst_idx, exchange_count, flow).
        length users - user_idx)") auto

declare flow_loop.simps [simp del]

definition build_flow :: "string list \<Rightarrow> string list \<Rightarrow> turn list" where
  "build_flow users assts = flow_loop users assts 0 0 0 []"

text \<open>\<^verbatim>\<open>Counter.most_common()\<close>: the items by decreasing count, equal counts in insertion order.\<close>

definition most_common :: "(json \<times> nat) list \<Rightarrow> (json \<times> nat) list" where
  "most_common items = sort_key (\<lambda>item. - int (snd item)) items"

record stats =
  stat_user_messages :: nat
  stat_assistant_responses :: nat
  stat_total_input_tokens :: int
  stat_total_output_tokens :: int
  stat_subagent_count :: nat
  stat_had_context_compression :: bool

record summary =
  s_session_id :: string
  s_project :: string
  s_start_time :: json
  s_end_time :: json
  s_git_branch :: json
  s_models_used :: "json list"
  s_stats :: stats
  s_tool_usage :: "(json \<times> nat) list"
  s_tool_details :: "tool_info list"
  s_files_touched :: "string list"
  s_conversation_flow :: "turn list"

text \<open>
  What \<^verbatim>\<open>process_session\<close> reads from the file system for one path: the session id and
  the project directory taken from the path, the lines of the log, and the number of
  \<^verbatim>\<open>*.jsonl\<close> files in the session's \<^verbatim>\<open>subagents\<close> directory (0 when there is none).
  The log is opened with \<^verbatim>\<open>errors='replace'\<close>, so its bytes always decode to lines.
\<close>

record session_file =
  file_session_id :: string
  file_project :: string
  file_lines :: "string list"
  file_subagents :: nat

definition build_summary :: "python \<Rightarrow> session_file \<Rightarrow> session_state \<Rightarrow> error + summary" where
  "build_summary rt f st =
     (let conversation_flow = build_flow (user_messages st) (assistant_texts st)
      in case (if timestamps st \<noteq> [] then min_of rt (timestamps st) else Some JNull) of
           None \<Rightarrow> Inl TypeError
         | Some start_time \<Rightarrow>
        (case (if timestamps st \<noteq> [] then max_of rt (timestamps st) else Some JNull) of
           None \<Rightarrow> Inl TypeError
         | Some end_time \<Rightarrow>
        (case sorted_of rt (models_used st) of
           None \<Rightarrow> Inl TypeError
         | Some models \<Rightarrow>
             Inr \<lparr>s_session_id = file_session_id f,
                  s_project = file_project f,
                  s_start_time = start_time,
                  s_end_time = end_time,
                  s_git_branch = git_branch st,
                  s_models_used = models,
                  s_stats = \<lparr>stat_user_messages = length (user_messages st),
                             stat_assistant_responses = length (assistant_texts st),
                             stat_total_input_tokens = total_input_tokens st,
                             stat_total_output_tokens = total_output_tokens st,
                             stat_subagent_count = file_subagents f,
                             stat_had_context_compression = has_summary st\<rparr>,
                  s_tool_usage = most_common (tool_usage st),
                  s_tool_details = tool_details st,
                  s_files_touched = take MAX_FILES_TOUCHED (sorted_list_of_set (files_touched st)),
                  s_conversation_flow = conversation_flow\<rparr>)))"

definition process_session :: "python \<Rightarrow> session_file \<Rightarrow> error + (summary \<times> nat)" where
  "process_session rt f =
     (case process_lines rt initial_state (file_lines f) of
        Inl e \<Rightarrow> Inl e
      | Inr st \<Rightarrow>
          (case build_summary rt f st of
             Inl e \<Rightarrow> Inl e
           | Inr summary \<Rightarrow> Inr (summary, lines_skipped st)))"

subsection \<open>main: the cache of summaries and the manifest\<close>

text \<open>
  The state of the loop over the discovered sessions in \<^verbatim>\<open>main\<close>: the files of the
  summaries directory (session id to the content of \<^verbatim>\<open><id>.json\<close>), the list
  \<^verbatim>\<open>all_summaries\<close> and the four counters. An element of \<^verbatim>\<open>all_summaries\<close> is either
  what \<^verbatim>\<open>json.load\<close> read from an existing file or the summary \<^verbatim>\<open>process_session\<close> built.
\<close>

datatype entry = Existing json | Computed summary

record run_state =
  summary_files :: "string \<rightharpoonup> string"
  all_summaries :: "entry list"
  new_count :: nat
  skipped_count :: nat
  error_count :: nat
  total_lines_skipped :: nat

text \<open>
  The second \<^verbatim>\<open>try\<close> block: run the compactor, collect and write the summary.
  \<^verbatim>\<open>except Exception\<close> counts every exception but \<^verbatim>\<open>SystemExit\<close>, which is not an
  \<^verbatim>\<open>Exception\<close>. \<open>json_dump\<close> is \<^verbatim>\<open>json.dump(summary, f, indent=2)\<close>.
\<close>

definition recompute ::
  "python \<Rightarrow> (summary \<Rightarrow> string) \<Rightarrow> run_state \<Rightarrow> session_file \<Rightarrow> error + run_state" where
  "recompute rt json_dump st f =
     (case process_session rt f of
        Inl e \<Rightarrow> (if e = SystemExit then Inl e else Inr (st\<lparr>error_count := error_count st + 1\<rparr>))
      | Inr (summary, skipped) \<Rightarrow>
          Inr (st\<lparr>total_lines_skipped := total_lines_skipped st + skipped,
                  all_summaries := all_summaries st @ [Computed summary],
                  new_count := new_count st + 1,
                  summary_files := (summary_files st)(file_session_id f \<mapsto> json_dump summary)\<rparr>))"

text \<open>
  The body of the loop for one session; \<open>force\<close> is \<^verbatim>\<open>args.force\<close>. The first \<^verbatim>\<open>try\<close>
  block reads an existing summary file; its handler is
  \<^verbatim>\<open>except (json.JSONDecodeError, KeyError)\<close>, and any other exception leaves \<^verbatim>\<open>main\<close>.
\<close>

definition process_one ::
  "python \<Rightarrow> (summary \<Rightarrow> string) \<Rightarrow> bool \<Rightarrow> run_state \<Rightarrow> session_file \<Rightarrow> error + run_state" where
  "process_one rt json_dump force st f =
     (case (if \<not> force then summary_files st (file_session_id f) else None) of
        Some cached \<Rightarrow>
          (case json_load rt cached of
             Inr existing \<Rightarrow>
               Inr (st\<lparr>all_summaries := all_summaries st @ [Existing existing],
                       skipped_count := skipped_count st + 1\<rparr>)
           | Inl e \<Rightarrow>
               (if e = JSONDecodeError \<or> e = KeyError then recompute rt json_dump st f
                else Inl e))
      | None \<Rightarrow> recompute rt json_dump st f)"

fun process_all ::
  "python \<Rightarrow> (summary \<Rightarrow> string) \<Rightarrow> bool \<Rightarrow> run_state \<Rightarrow> session_file list
     \<Rightarrow> error + run_state" where
  "process_all rt json_dump force st [] = Inr st"
| "process_all rt json_dump force st (f # fs) =
     (case process_one rt json_dump force st f of
        Inl e \<Rightarrow> Inl e
      | Inr st' \<Rightarrow> process_all rt json_dump force st' fs)"

text \<open>
  The manifest has one row per element of \<^verbatim>\<open>all_summaries\<close>, read with subscripts.
  \<^verbatim>\<open>s[k]\<close> raises \<^verbatim>\<open>KeyError\<close> on a dict without the key and \<^verbatim>\<open>TypeError\<close> on a value that
  is not a dict; \<^verbatim>\<open>.keys()\<close> raises \<^verbatim>\<open>AttributeError\<close> on a value that is not a dict.
\<close>

fun subscript :: "json \<Rightarrow> string \<Rightarrow> error + json" where
  "subscript (JObj kvs) k = (case map_of kvs k of None \<Rightarrow> Inl KeyError | Some v \<Rightarrow> Inr v)"
| "subscript _ k = Inl TypeError"

fun keys_of :: "json \<Rightarrow> error + json list" where
  "keys_of (JObj kvs) = Inr (map JStr (remdups (map fst kvs)))"
| "keys_of _ = Inl AttributeError"

record manifest_row =
  row_session_id :: json
  row_project :: json
  row_start_time :: json
  row_end_time :: json
  row_user_messages :: json
  row_models :: json
  row_subagent_count :: json
  row_top_tools :: "json list"

definition existing_row :: "json \<Rightarrow> error + manifest_row" where
  "existing_row s =
     (case subscript s ''session_id'' of Inl e \<Rightarrow> Inl e | Inr sid \<Rightarrow>
     (case subscript s ''project'' of Inl e \<Rightarrow> Inl e | Inr project \<Rightarrow>
     (case subscript s ''start_time'' of Inl e \<Rightarrow> Inl e | Inr start_time \<Rightarrow>
     (case subscript s ''end_time'' of Inl e \<Rightarrow> Inl e | Inr end_time \<Rightarrow>
     (case subscript s ''stats'' of Inl e \<Rightarrow> Inl e | Inr stats1 \<Rightarrow>
     (case subscript stats1 ''user_messages'' of Inl e \<Rightarrow> Inl e | Inr user_count \<Rightarrow>
     (case subscript s ''models_used'' of Inl e \<Rightarrow> Inl e | Inr models \<Rightarrow>
     (case subscript s ''stats'' of Inl e \<Rightarrow> Inl e | Inr stats2 \<Rightarrow>
     (case subscript stats2 ''subagent_count'' of Inl e \<Rightarrow> Inl e | Inr subagents \<Rightarrow>
     (case subscript s ''tool_usage'' of Inl e \<Rightarrow> Inl e | Inr usage \<Rightarrow>
     (case keys_of usage of Inl e \<Rightarrow> Inl e | Inr tools \<Rightarrow>
        Inr \<lparr>row_session_id = sid, row_project = project, row_start_time = start_time,
             row_end_time = end_time, row_user_messages = user_count, row_models = models,
             row_subagent_count = subagents, row_top_tools = take 5 tools\<rparr>)))))))))))"

definition computed_row :: "summary \<Rightarrow> manifest_row" where
  "computed_row s =
     \<lparr>row_session_id = JStr (s_session_id s), row_project = JStr (s_project s),
      row_start_time = s_start_time s, row_end_time = s_end_time s,
      row_user_messages = JInt (int (stat_user_messages (s_stats s))),
      row_models = JArr (s_models_used s),
      row_subagent_count = JInt (int (stat_subagent_count (s_stats s))),
      row_top_tools = take 5 (map fst (s_tool_usage s))\<rparr>"

fun manifest_rows :: "entry list \<Rightarrow> error + manifest_row list" where
  "manifest_rows [] = Inr []"
| "manifest_rows (Existing s # rest) =
     (case existing_row s of
        Inl e \<Rightarrow> Inl e
      | Inr row \<Rightarrow> (case manifest_rows rest of Inl e \<Rightarrow> Inl e | Inr rows \<Rightarrow> Inr (row # rows)))"
| "manifest_rows (Computed s # rest) =
     (case manifest_rows rest of Inl e \<Rightarrow> Inl e | Inr rows \<Rightarrow> Inr (computed_row s # rows))"

text \<open>
  \<^verbatim>\<open>main\<close> from the loop to the manifest, on the sessions \<^verbatim>\<open>discover_sessions\<close> found and
  a summaries directory with the files \<open>files\<close>.
\<close>

definition run_main ::
  "python \<Rightarrow> (summary \<Rightarrow> string) \<Rightarrow> bool \<Rightarrow> (string \<rightharpoonup> string) \<Rightarrow> session_file list
     \<Rightarrow> error + (run_state \<times> manifest_row list)" where
  "run_main rt json_dump force files sessions =
     (case process_all rt json_dump force
             \<lparr>summary_files = files, all_summaries = [], new_count = 0, skipped_count = 0,
              error_count = 0, total_lines_skipped = 0\<rparr> sessions of
        Inl e \<Rightarrow> Inl e
      | Inr st \<Rightarrow>
          (case manifest_rows (all_summaries st) of
             Inl e \<Rightarrow> Inl e
           | Inr rows \<Rightarrow> Inr (st, rows)))"

section \<open>Stage 3: the aggregation engine (report.py)\<close>

text \<open>
  A facet is a parsed dict. The \<^verbatim>\<open>Counter\<close> returned by \<^verbatim>\<open>aggregate_dict_field\<close> has string
  keys and sums of numbers: it is the list of its items in insertion order.
\<close>

definition num_get :: "(string \<times> int) list \<Rightarrow> string \<Rightarrow> int" where
  "num_get counter k = (case map_of counter k of None \<Rightarrow> 0 | Some v \<Rightarrow> v)"













subsection \<open>generate_recommendations\<close>

text \<open>\<^verbatim>\<open>str\<close> of an integer, for the counts the descriptions quote.\<close>

fun str_nat :: "nat \<Rightarrow> string" where
  "str_nat n =
     (if n < 10 then [char_of (48 + n)] else str_nat (n div 10) @ [char_of (48 + n mod 10)])"

declare str_nat.simps [simp del]

definition str_int :: "int \<Rightarrow> string" where
  "str_int i = (if i < 0 then ''-'' @ str_nat (nat (- i)) else str_nat (nat i))"

record recommendation =
  title :: string
  description :: string

text \<open>
  The two counters are \<^verbatim>\<open>dict(friction_counter)\<close> and \<^verbatim>\<open>dict(goal_categories)\<close>.
  \<^verbatim>\<open>total_sessions * 0.3\<close> is a product in double precision in Python and exact here.
\<close>

definition generate_recommendations ::
  "(string \<times> int) list \<Rightarrow> nat \<Rightarrow> (string \<times> int) list \<Rightarrow> (json \<times> nat) list \<Rightarrow> recommendation list" where
  "generate_recommendations friction_counter total_sessions goal_counter session_types =
     (let recs = [];
          recs = (if num_get friction_counter ''context_overflow'' \<ge> 3
                  then recs @ [\<lparr>title = ''Manage Session Length'',
                      description = ''You had '' @ str_int (num_get friction_counter ''context_overflow'')
                        @ '' context overflow events. ''
                        @ ''Use /compact proactively when sessions exceed 20 messages. ''
                        @ ''Write session state to a file before context compression so nothing is lost.''\<rparr>]
                  else recs);
          recs = (if num_get friction_counter ''tool_failure'' \<ge> 5
                  then recs @ [\<lparr>title = ''Add Subagent Limits'',
                      description = ''Tool failures ('' @ str_int (num_get friction_counter ''tool_failure'')
                        @ '' events) often come from ''
                        @ ''rate limits when spawning too many parallel subagents. ''
                        @ ''Limit to 5 concurrent subagents and wait for each batch to complete.''\<rparr>]
                  else recs);
          recs = (if num_get friction_counter ''fabricated_data'' \<ge> 1
                  then recs @ [\<lparr>title = ''Add Data Verification Guardrails'',
                      description = ''Fabricated data was detected in ''
                        @ str_int (num_get friction_counter ''fabricated_data'') @ '' session(s). ''
                        @ ''Add a CLAUDE.md rule requiring source citations for factual claims, ''
                        @ ''and consider a post-tool hook that validates research output quality.''\<rparr>]
                  else recs);
          recs = (if num_get friction_counter ''wrong_approach'' \<ge> 5
                  then recs @ [\<lparr>title = ''Provide More Upfront Constraints'',
                      description = ''Claude took the wrong approach ''
                        @ str_int (num_get friction_counter ''wrong_approach'') @ '' times. ''
                        @ ''When starting complex tasks, provide explicit constraints and preferred approaches ''
                        @ ''upfront rather than letting Claude choose freely.''\<rparr>]
                  else recs);
          recs = (if real_of_int (num_get goal_counter ''research'') > real total_sessions * 0.3
                  then recs @ [\<lparr>title = ''Build a Research Skill'',
                      description = ''Research dominates your usage (''
                        @ str_int (num_get goal_counter ''research'') @ '' goal instances). ''
                        @ ''Create a custom /research skill that encodes your research workflow, ''
                        @ ''including output format, quality checks, and rate-limit-aware batching.''\<rparr>]
                  else recs);
          recs = (if num_get friction_counter ''missed_context'' \<ge> 3
                  then recs @ [\<lparr>title = ''Start Sessions with Context Loading'',
                      description = ''Missed context ('' @ str_int (num_get friction_counter ''missed_context'')
                        @ '' events) wastes time ''
                        @ ''re-explaining prior work. Start each session by having Claude read ''
                        @ ''the relevant CLAUDE.md and recent work logs before diving in.''\<rparr>]
                  else recs);
          recs = recs @ [\<lparr>title = ''Run Deep Insights Monthly'',
                      description = ''Track how your usage patterns, friction rates, and session quality change ''
                        @ ''over time. Monthly reports help you see whether CLAUDE.md improvements ''
                        @ ''are actually reducing friction.''\<rparr>]
      in take 5 recs)"

subsection \<open>build_report_data: the aggregates and the derived metrics\<close>

text \<open>
  \<^verbatim>\<open>build_report_data\<close> from its first line to the end of its block of derived metrics: the
  values of its local variables at that point. An empty facet list exits the process
  before anything is computed. The rest of the function builds lists and texts from these
  variables and does not assign them again.
\<close>

record metrics =
  total_sessions :: nat
  m_outcomes :: "(json \<times> nat) list"
  m_satisfaction :: "(string \<times> int) list"
  m_helpfulness :: "(json \<times> nat) list"
  m_session_types :: "(json \<times> nat) list"
  m_goal_categories :: "(string \<times> int) list"
  m_friction_counter :: "(string \<times> int) list"
  m_primary_successes :: "(json \<times> nat) list"
  goals_achieved_pct :: real
  helpful_pct :: real
  friction_count :: nat
  friction_pct :: real
  total_friction :: int



section \<open>Notions used to state the properties\<close>

text \<open>
  The interleaving the specification describes: one user turn per user message, each
  followed by the assistant text of the same index while there is one.
\<close>

fun interleave :: "string list \<Rightarrow> string list \<Rightarrow> turn list" where
  "interleave [] assts = []"
| "interleave (u # users) [] = \<lparr>role = ''user'', turn_text = u\<rparr> # interleave users []"
| "interleave (u # users) (a # assts) =
     \<lparr>role = ''user'', turn_text = u\<rparr> # \<lparr>role = ''assistant'', turn_text = a\<rparr>
       # interleave users assts"

definition count_role :: "string \<Rightarrow> turn list \<Rightarrow> nat" where
  "count_role r flow = length (filter (\<lambda>t. role t = r) flow)"

text \<open>Strict alternation of roles, starting with a user entry.\<close>

fun alternates :: "turn list \<Rightarrow> bool" where
  "alternates [] = True"
| "alternates [t] = (role t = ''user'')"
| "alternates (t # t' # rest) =
     (role t = ''user'' \<and> role t' = ''assistant'' \<and> alternates rest)"

text \<open>
  The tool invocations of a session, in order: those \<^verbatim>\<open>extract_tool_calls\<close> returns for
  the content of each assistant record of the log.
\<close>

definition record_invocations :: "python \<Rightarrow> json \<Rightarrow> tool_info list" where
  "record_invocations rt obj =
     (case obj of
        JObj kvs \<Rightarrow>
          (if dict_get kvs ''type'' JNull = JStr ''assistant''
           then (case dict_get kvs ''message'' (JObj []) of
                   JObj msg \<Rightarrow>
                     (case extract_tool_calls rt (dict_get msg ''content'' (JArr [])) of
                        Inr tools \<Rightarrow> tools
                      | Inl e \<Rightarrow> [])
                 | _ \<Rightarrow> [])
           else [])
      | _ \<Rightarrow> [])"

definition line_invocations :: "python \<Rightarrow> string \<Rightarrow> tool_info list" where
  "line_invocations rt line =
     (if strip line = [] then []
      else case json_loads rt (strip line) of
             Inr obj \<Rightarrow> record_invocations rt obj
           | Inl e \<Rightarrow> [])"

definition invocations :: "python \<Rightarrow> string list \<Rightarrow> tool_info list" where
  "invocations rt lines = concat (map (line_invocations rt) lines)"

text \<open>The tools whose record has a \<^verbatim>\<open>target\<close>, and the targets that count as file paths.\<close>

definition file_tools :: "json set" where
  "file_tools = {JStr ''Read'', JStr ''Glob'', JStr ''Grep'', JStr ''Edit'', JStr ''Write''}"

definition path_targets :: "tool_info list \<Rightarrow> string set" where
  "path_targets tools =
     set (filter (\<lambda>p. p \<noteq> [] \<and> CHR ''/'' \<in> set p) (map tool_target tools))"

text \<open>
  The two text streams of a session, in order. A user record gives its extracted text when
  that is not blank; an assistant record gives its extracted text when that is not blank,
  and a summary record gives the pseudo-message made of its summary.
\<close>

definition record_user_texts :: "python \<Rightarrow> json \<Rightarrow> string list" where
  "record_user_texts rt obj =
     (case obj of
        JObj kvs \<Rightarrow>
          (if dict_get kvs ''type'' JNull = JStr ''user''
           then (case get (dict_get kvs ''message'' (JObj [])) ''content'' (JStr []) of
                   Inr content \<Rightarrow>
                     filter (\<lambda>t. strip t \<noteq> [])
                       [extract_text_from_content rt content MAX_TEXT_PER_MESSAGE]
                 | Inl e \<Rightarrow> [])
           else [])
      | _ \<Rightarrow> [])"

definition record_assistant_texts :: "python \<Rightarrow> json \<Rightarrow> string list" where
  "record_assistant_texts rt obj =
     (case obj of
        JObj kvs \<Rightarrow>
          (if dict_get kvs ''type'' JNull = JStr ''summary''
           then (if truthy (dict_get kvs ''summary'' (JStr []))
                 then [context_summary rt (dict_get kvs ''summary'' (JStr []))]
                 else [])
           else if dict_get kvs ''type'' JNull = JStr ''assistant''
           then (case dict_get kvs ''message'' (JObj []) of
                   JObj msg \<Rightarrow>
                     filter (\<lambda>t. strip t \<noteq> [])
                       [extract_text_from_content rt (dict_get msg ''content'' (JArr []))
                          MAX_TEXT_PER_MESSAGE]
                 | _ \<Rightarrow> [])
           else [])
      | _ \<Rightarrow> [])"

text \<open>The records of a log: what \<^verbatim>\<open>json.loads\<close> returns for the lines it accepts.\<close>

definition line_records :: "python \<Rightarrow> string \<Rightarrow> json list" where
  "line_records rt line =
     (if strip line = [] then []
      else case json_loads rt (strip line) of
             Inr obj \<Rightarrow> [obj]
           | Inl e \<Rightarrow> [])"

definition user_texts :: "python \<Rightarrow> string list \<Rightarrow> string list" where
  "user_texts rt lines =
     concat (map (record_user_texts rt) (concat (map (line_records rt) lines)))"

definition assistant_stream :: "python \<Rightarrow> string list \<Rightarrow> string list" where
  "assistant_stream rt lines =
     concat (map (record_assistant_texts rt) (concat (map (line_records rt) lines)))"

text \<open>A session log with one more line, put before the line of index \<open>i\<close>.\<close>

definition insert_line :: "nat \<Rightarrow> string \<Rightarrow> session_file \<Rightarrow> session_file" where
  "insert_line i line f =
     f\<lparr>file_lines := take i (file_lines f) @ line # drop i (file_lines f)\<rparr>"


text \<open>The state with \<open>m\<close> more skipped lines.\<close>

definition more_skipped :: "nat \<Rightarrow> session_state \<Rightarrow> session_state" where
  "more_skipped m st = st\<lparr>lines_skipped := lines_skipped st + m\<rparr>"

text \<open>
  The titles of the recommendations in the order the engine considers them, and the
  threshold conditions of the six gated ones in the same order.
\<close>

definition recommendation_order :: "string list" where
  "recommendation_order =
     [''Manage Session Length'', ''Add Subagent Limits'', ''Add Data Verification Guardrails'',
      ''Provide More Upfront Constraints'', ''Build a Research Skill'',
      ''Start Sessions with Context Loading'', ''Run Deep Insights Monthly'']"

definition gates :: "(string \<times> int) list \<Rightarrow> nat \<Rightarrow> (string \<times> int) list \<Rightarrow> bool list" where
  "gates friction_counter n goal_counter =
     [num_get friction_counter ''context_overflow'' \<ge> 3,
      num_get friction_counter ''tool_failure'' \<ge> 5,
      num_get friction_counter ''fabricated_data'' \<ge> 1,
      num_get friction_counter ''wrong_approach'' \<ge> 5,
      real_of_int (num_get goal_counter ''research'') > real n * 0.3,
      num_get friction_counter ''missed_context'' \<ge> 3]"


section \<open>A runtime and session logs for the examples\<close>

text \<open>
  The lines of the example logs with what \<^verbatim>\<open>json.loads\<close> does on each: the value it
  returns, \<^verbatim>\<open>RecursionError\<close> on the line of 2000 opening brackets, and
  \<^verbatim>\<open>JSONDecodeError\<close> on every other text of the examples. \<^verbatim>\<open>json.load\<close> does the same on
  the content of a file. On the values the examples use, the other functions of the
  runtime are Python's: \<^verbatim>\<open>str\<close> of \<^verbatim>\<open>None\<close>, a bool or an integer, and \<^verbatim>\<open>min\<close>, \<^verbatim>\<open>max\<close> and
  \<^verbatim>\<open>sorted\<close> of at most one value.
\<close>

definition user_line :: string where
  \<open>user_line = ''{"type": "user", "message": {"content": "hello"}}''\<close>

definition assistant_line :: string where
  \<open>assistant_line = ''{"type": "assistant", "message": {"content": "hi"}}''\<close>

definition read_line :: string where
  \<open>read_line = ''{"type": "assistant", "message": {"content": [{"type": "tool_use", "name": "Read", "input": {"file_path": "/src/a.py"}}]}}''\<close>

definition edit_line :: string where
  \<open>edit_line = ''{"type": "assistant", "message": {"content": [{"type": "tool_use", "name": "Edit", "input": {"file_path": "/lib/b.py"}}]}}''\<close>

definition bash_line :: string where
  \<open>bash_line = ''{"type": "assistant", "message": {"content": [{"type": "tool_use", "name": "Bash", "input": {"command": "ls /tmp"}}]}}''\<close>

definition summary_line :: string where
  \<open>summary_line = ''{"type": "summary", "summary": "'' @ replicate 1000 CHR ''x'' @ ''"}''\<close>

definition blocks_line :: string where
  \<open>blocks_line = ''{"type": "user", "message": {"content": [{"type": "text", "text": "''
     @ replicate 300 CHR ''a'' @ ''"}, {"type": "text", "text": "''
     @ replicate 300 CHR ''b'' @ ''"}]}}''\<close>



definition deep_line :: string where
  "deep_line = replicate 2000 CHR ''[''"

definition cached_summary :: string where
  \<open>cached_summary = ''{"session_id": "s1"}''\<close>

definition example_loads :: "string \<Rightarrow> error + json" where
  "example_loads line =
     (if line = user_line
      then Inr (JObj [(''type'', JStr ''user''),
                      (''message'', JObj [(''content'', JStr ''hello'')])])
      else if line = assistant_line
      then Inr (JObj [(''type'', JStr ''assistant''),
                      (''message'', JObj [(''content'', JStr ''hi'')])])
      else if line = read_line
      then Inr (JObj [(''type'', JStr ''assistant''),
                      (''message'', JObj [(''content'', JArr [JObj
                         [(''type'', JStr ''tool_use''), (''name'', JStr ''Read''),
                          (''input'', JObj [(''file_path'', JStr ''/src/a.py'')])]])])])
      else if line = edit_line
      then Inr (JObj [(''type'', JStr ''assistant''),
                      (''message'', JObj [(''content'', JArr [JObj
                         [(''type'', JStr ''tool_use''), (''name'', JStr ''Edit''),
                          (''input'', JObj [(''file_path'', JStr ''/lib/b.py'')])]])])])
      else if line = bash_line
      then Inr (JObj [(''type'', JStr ''assistant''),
                      (''message'', JObj [(''content'', JArr [JObj
                         [(''type'', JStr ''tool_use''), (''name'', JStr ''Bash''),
                          (''input'', JObj [(''command'', JStr ''ls /tmp'')])]])])])
      else if line = summary_line
      then Inr (JObj [(''type'', JStr ''summary''),
                      (''summary'', JStr (replicate 1000 CHR ''x''))])
      else if line = blocks_line
      then Inr (JObj [(''type'', JStr ''user''),
                      (''message'', JObj [(''content'', JArr
                         [JObj [(''type'', JStr ''text''), (''text'', JStr (replicate 300 CHR ''a''))],
                          JObj [(''type'', JStr ''text''), (''text'', JStr (replicate 300 CHR ''b''))]])])])
      else if line = cached_summary
      then Inr (JObj [(''session_id'', JStr ''s1'')])
      else if line = deep_line
      then Inl RecursionError
      else Inl JSONDecodeError)"

definition example_repr :: "json \<Rightarrow> string" where
  "example_repr v =
     (case v of
        JNull \<Rightarrow> ''None''
      | JBool b \<Rightarrow> (if b then ''True'' else ''False'')
      | JInt i \<Rightarrow> str_int i
      | _ \<Rightarrow> [])"

definition example_python :: python where
  "example_python =
     \<lparr>json_loads = example_loads,
      json_load = example_loads,
      repr_of = example_repr,
      min_of = (\<lambda>xs. case xs of [x] \<Rightarrow> Some x | _ \<Rightarrow> None),
      max_of = (\<lambda>xs. case xs of [x] \<Rightarrow> Some x | _ \<Rightarrow> None),
      sorted_of = (\<lambda>xs. if length xs \<le> 1 then Some xs else None)\<rparr>"

definition session_of :: "string list \<Rightarrow> session_file" where
  "session_of lines =
     \<lparr>file_session_id = ''s1'', file_project = ''p'', file_lines = lines, file_subagents = 0\<rparr>"

text \<open>
  A summaries directory for the examples, holding at most the file of session \<^verbatim>\<open>s1\<close>, and
  a stand-in for \<^verbatim>\<open>json.dump\<close> that writes the session id only.
\<close>

definition example_files :: "string option \<Rightarrow> string \<rightharpoonup> string" where
  "example_files file = (\<lambda>sid. if sid = ''s1'' then file else None)"

definition example_run :: "string option \<Rightarrow> run_state" where
  "example_run file =
     \<lparr>summary_files = example_files file, all_summaries = [],
      new_count = 0, skipped_count = 0, error_count = 0, total_lines_skipped = 0\<rparr>"

definition example_dump :: "summary \<Rightarrow> string" where
  \<open>example_dump s = ''{"session_id": "'' @ s_session_id s @ ''"}''\<close>




section \<open>Properties of the session compactor\<close>

subsection \<open>Reading the result of process_session\<close>

lemma process_session_Inr:
  assumes "process_session rt f = Inr (s, k)"
  obtains st where "process_lines rt initial_state (file_lines f) = Inr st"
    and "build_summary rt f st = Inr s" and "k = lines_skipped st"
  using assms by (auto simp: process_session_def split: sum.splits)

lemma build_summary_Inr:
  assumes "build_summary rt f st = Inr s"
  shows "s_conversation_flow s = build_flow (user_messages st) (assistant_texts st)"
    and "stat_user_messages (s_stats s) = length (user_messages st)"
    and "stat_assistant_responses (s_stats s) = length (assistant_texts st)"
    and "s_tool_usage s = most_common (tool_usage st)"
    and "s_tool_details s = tool_details st"
    and "s_files_touched s = take MAX_FILES_TOUCHED (sorted_list_of_set (files_touched st))"
  using assms by (auto simp: build_summary_def Let_def split: option.splits if_splits)

subsection \<open>The conversation flow\<close>

lemma flow_loop_interleave:
  "flow_loop users assts ui ai ec flow =
     flow @ interleave (take (MAX_CONVERSATION_EXCHANGES - ec) (drop ui users)) (drop ai assts)"
proof (induction users assts ui ai ec flow rule: flow_loop.induct)
  case (1 users assts ui ai ec flow)
  show ?case
  proof (cases "ui < length users \<and> ec < MAX_CONVERSATION_EXCHANGES")
    case False
    then show ?thesis by (subst flow_loop.simps) auto
  next
    case True
    then obtain n where n: "MAX_CONVERSATION_EXCHANGES - ec = Suc n"
      by (metis Suc_diff_Suc)
    then have n': "MAX_CONVERSATION_EXCHANGES - Suc ec = n" by simp
    from True have du: "drop ui users = users ! ui # drop (ui + 1) users"
      by (simp add: Cons_nth_drop_Suc)
    show ?thesis
    proof (cases "ai < length assts")
      case paired: True
      then have da: "drop ai assts = assts ! ai # drop (ai + 1) assts"
        by (simp add: Cons_nth_drop_Suc)
      show ?thesis
        using True paired "1.IH"(1)[OF True refl paired]
        by (subst flow_loop.simps) (simp add: n n' du da Let_def)
    next
      case alone: False
      then have da: "drop ai assts = []" by simp
      show ?thesis
        using True alone "1.IH"(2)[OF True refl alone]
        by (subst flow_loop.simps) (simp add: n n' du da Let_def)
    qed
  qed
qed

lemma build_flow_interleave:
  "build_flow users assts = interleave (take MAX_CONVERSATION_EXCHANGES users) assts"
  by (simp add: build_flow_def flow_loop_interleave)

lemma length_interleave:
  "length (interleave users assts) = length users + min (length users) (length assts)"
  by (induction users assts rule: interleave.induct) auto

lemma count_user_interleave: "count_role ''user'' (interleave users assts) = length users"
  by (induction users assts rule: interleave.induct) (auto simp: count_role_def)

lemma count_assistant_interleave:
  "count_role ''assistant'' (interleave users assts) = min (length users) (length assts)"
  by (induction users assts rule: interleave.induct) (auto simp: count_role_def)

lemma alternates_interleave:
  "alternates (interleave users assts) = (length users \<le> Suc (length assts))"
proof (induction users assts rule: interleave.induct)
  case (1 assts)
  then show ?case by simp
next
  case (2 u users)
  then show ?case by (cases users) simp_all
next
  case (3 u users a assts)
  then show ?case by simp
qed

lemma hd_interleave:
  "interleave users assts \<noteq> [] \<Longrightarrow> role (hd (interleave users assts)) = ''user''"
  by (induction users assts rule: interleave.induct) auto

lemma role_interleave:
  "i < length (interleave users assts) \<Longrightarrow>
   role (interleave users assts ! i) =
     (if i < 2 * min (length users) (length assts) \<and> odd i then ''assistant'' else ''user'')"
proof (induction users assts arbitrary: i rule: interleave.induct)
  case (1 assts)
  then show ?case by simp
next
  case (2 u users)
  then show ?case by (cases i) auto
next
  case (3 u users a assts)
  show ?case
  proof (cases i)
    case 0
    then show ?thesis by simp
  next
    case (Suc j)
    show ?thesis
    proof (cases j)
      case 0
      with Suc show ?thesis by simp
    next
      case (Suc k)
      with \<open>i = Suc j\<close> 3 show ?thesis by auto
    qed
  qed
qed

subsection \<open>Caps of the tool details\<close>

text \<open>
  Every detail string other than the sub-type label is cut to 200 characters, the spawn
  description and the subject to 100.
\<close>

lemma length_cap_str: "length (cap_str rt n v) \<le> n"
  by (simp add: cap_str_def)

lemma capped_single:
  assumes "ds = [(k0, cap_str rt n x)]" and "(k, v) \<in> set ds"
    and "n \<le> MAX_TOOL_RESULT_CHARS" and "k0 = ''description'' \<longrightarrow> n \<le> 100"
  shows "length v \<le> MAX_TOOL_RESULT_CHARS \<and> (k = ''description'' \<longrightarrow> length v \<le> 100)"
proof -
  from assms(1,2) have kv: "k = k0" "v = cap_str rt n x" by simp_all
  have "length v \<le> n" unfolding kv by (rule length_cap_str)
  with assms(3,4) kv(1) show ?thesis by (meson le_trans)
qed

lemma capped_task:
  assumes "ds = [(''description'', cap_str rt 100 x), (''subagent_type'', y)]"
    and "(k, v) \<in> set ds" and "k \<noteq> ''subagent_type''"
  shows "length v \<le> MAX_TOOL_RESULT_CHARS \<and> (k = ''description'' \<longrightarrow> length v \<le> 100)"
proof -
  from assms have "v = cap_str rt 100 x" by simp
  then have "length v \<le> 100" by (simp add: length_cap_str)
  then show ?thesis by (simp add: MAX_TOOL_RESULT_CHARS_def)
qed

lemma tool_details_of_capped:
  assumes "tool_details_of rt nm inp = Inr ds" and kv: "(k, v) \<in> set ds"
    and k: "k \<noteq> ''subagent_type''"
  shows "length v \<le> MAX_TOOL_RESULT_CHARS \<and> (k = ''description'' \<longrightarrow> length v \<le> 100)"
proof (cases inp)
  case (JObj kvs)
  show ?thesis
  proof (cases "nm \<in> {JStr ''Read'', JStr ''Glob'', JStr ''Grep''}")
    case True
    with assms(1) JObj have ds:
        "ds = [(''target'', cap_str rt MAX_TOOL_RESULT_CHARS (dict_get kvs ''file_path'' (dict_get kvs ''pattern'' (dict_get kvs ''path'' (JStr [])))))]"
        by (simp add: tool_details_of_def)
      show ?thesis
        by (rule capped_single [OF ds kv]) (simp_all)
  next
    case n1: False
    show ?thesis
    proof (cases "nm \<in> {JStr ''Edit'', JStr ''Write''}")
      case True
      with assms(1) JObj n1 have ds:
        "ds = [(''target'', cap_str rt MAX_TOOL_RESULT_CHARS (dict_get kvs ''file_path'' (JStr [])))]"
        by (simp add: tool_details_of_def)
      show ?thesis
        by (rule capped_single [OF ds kv]) (simp_all)
    next
      case n2: False
      show ?thesis
      proof (cases "nm = JStr ''Bash''")
        case True
        with assms(1) JObj have ds:
        "ds = [(''command'', cap_str rt MAX_TOOL_RESULT_CHARS (dict_get kvs ''command'' (JStr [])))]"
        by (simp add: tool_details_of_def)
      show ?thesis
        by (rule capped_single [OF ds kv]) (simp_all)
      next
        case n3: False
        show ?thesis
        proof (cases "nm = JStr ''WebSearch''")
          case True
          with assms(1) JObj have ds:
        "ds = [(''query'', cap_str rt MAX_TOOL_RESULT_CHARS (dict_get kvs ''query'' (JStr [])))]"
        by (simp add: tool_details_of_def)
      show ?thesis
        by (rule capped_single [OF ds kv]) (simp_all)
        next
          case n4: False
          show ?thesis
          proof (cases "nm = JStr ''WebFetch''")
            case True
            with assms(1) JObj have ds:
        "ds = [(''url'', cap_str rt MAX_TOOL_RESULT_CHARS (dict_get kvs ''url'' (JStr [])))]"
        by (simp add: tool_details_of_def)
      show ?thesis
        by (rule capped_single [OF ds kv]) (simp_all)
          next
            case n5: False
            show ?thesis
            proof (cases "nm = JStr ''Task''")
              case True
              with assms(1) JObj have
                "ds = [(''description'', cap_str rt 100 (dict_get kvs ''description'' (JStr []))),
                       (''subagent_type'', py_str rt (dict_get kvs ''subagent_type'' (JStr [])))]"
                by (simp add: tool_details_of_def)
              then show ?thesis using kv k by (rule capped_task)
            next
              case n6: False
              show ?thesis
              proof (cases "nm \<in> {JStr ''TaskCreate'', JStr ''TaskUpdate''}")
                case True
                with assms(1) JObj n1 n2 n3 n4 n5 n6 have ds:
        "ds = [(''subject'', cap_str rt 100 (dict_get kvs ''subject'' (dict_get kvs ''status'' (JStr []))))]"
        by (simp add: tool_details_of_def)
      show ?thesis
        by (rule capped_single [OF ds kv]) (simp_all add: MAX_TOOL_RESULT_CHARS_def)
              next
                case False
                with assms(1) JObj n1 n2 n3 n4 n5 n6 have "ds = []"
                  by (simp add: tool_details_of_def)
                with kv show ?thesis by simp
              qed
            qed
          qed
        qed
      qed
    qed
  qed
next
  case JNull
  with assms(1) have "ds = []" by (simp add: tool_details_of_def split: if_splits)
  with kv show ?thesis by simp
next
  case (JBool b)
  with assms(1) have "ds = []" by (simp add: tool_details_of_def split: if_splits)
  with kv show ?thesis by simp
next
  case (JInt i)
  with assms(1) have "ds = []" by (simp add: tool_details_of_def split: if_splits)
  with kv show ?thesis by simp
next
  case (JStr s)
  with assms(1) have "ds = []" by (simp add: tool_details_of_def split: if_splits)
  with kv show ?thesis by simp
next
  case (JArr xs)
  with assms(1) have "ds = []" by (simp add: tool_details_of_def split: if_splits)
  with kv show ?thesis by simp
qed

lemma tools_of_blocks_capped:
  assumes "tools_of_blocks rt blocks = Inr tools" and "t \<in> set tools"
    and "(k, v) \<in> set (details t)" and "k \<noteq> ''subagent_type''"
  shows "length v \<le> MAX_TOOL_RESULT_CHARS \<and> (k = ''description'' \<longrightarrow> length v \<le> 100)"
  using assms
proof (induction blocks arbitrary: tools)
  case Nil
  then show ?case by simp
next
  case (Cons block blocks)
  show ?case
  proof (cases "is_tool_use block")
    case False
    with Cons show ?thesis by simp
  next
    case True
    with Cons.prems(1) obtain t0 ts where t0: "tool_of_block rt block = Inr t0"
      and ts: "tools_of_blocks rt blocks = Inr ts" and tools: "tools = t0 # ts"
      by (auto split: sum.splits)
    from t0 obtain nm inp where "tool_details_of rt nm inp = Inr (details t0)"
      by (auto simp: tool_of_block_def Let_def split: json.splits sum.splits)
    then have "t = t0 \<Longrightarrow> ?thesis"
      using tool_details_of_capped Cons.prems(3,4) by blast
    moreover have "t \<in> set ts \<Longrightarrow> ?thesis"
      using Cons.IH [OF ts] Cons.prems(3,4) by blast
    ultimately show ?thesis using Cons.prems(2) tools by auto
  qed
qed

lemma extract_tool_calls_capped:
  assumes "extract_tool_calls rt content = Inr tools" and "t \<in> set tools"
    and "(k, v) \<in> set (details t)" and "k \<noteq> ''subagent_type''"
  shows "length v \<le> MAX_TOOL_RESULT_CHARS \<and> (k = ''description'' \<longrightarrow> length v \<le> 100)"
proof (cases content)
  case (JArr blocks)
  with assms(1) have "tools_of_blocks rt blocks = Inr tools"
    by (simp add: extract_tool_calls_def)
  then show ?thesis using assms(2,3,4) by (rule tools_of_blocks_capped)
qed (use assms in \<open>simp_all add: extract_tool_calls_def\<close>)

text \<open>
  Claim C3 at a Task invocation whose sub-type label has 201 characters: the label is
  stored whole, beyond the cap of 200.
\<close>

theorem subagent_type_uncapped:
  "extract_tool_calls example_python
     (JArr [JObj [(''type'', JStr ''tool_use''), (''name'', JStr ''Task''),
                  (''input'', JObj [(''description'', JStr ''d''),
                                    (''subagent_type'', JStr (replicate 201 CHR ''x''))])]])
   = Inr [\<lparr>name = JStr ''Task'',
           details = [(''description'', ''d''), (''subagent_type'', replicate 201 CHR ''x'')]\<rparr>]
   \<and> length (replicate 201 CHR ''x'') > MAX_TOOL_RESULT_CHARS"
  by (simp add: extract_tool_calls_def is_tool_use_def tool_of_block_def tool_details_of_def
      dict_get_def cap_str_def py_str_def MAX_TOOL_RESULT_CHARS_def)

subsection \<open>What one record does to the state\<close>

lemma record_tool_effect:
  assumes "record_tool st tool = Inr st'"
  shows "st' = st\<lparr>tool_usage := counter_incr (tool_usage st) (name tool),
                  files_touched := files_touched st \<union> path_targets [tool],
                  tool_details := tool_details st
                    @ take (MAX_TOOL_DETAILS - length (tool_details st)) [tool]\<rparr>"
  using assms
  by (auto simp: record_tool_def Let_def path_targets_def split: if_splits)

lemma take_details_append:
  "(ds @ take (n - length ds) xs) @ take (n - length (ds @ take (n - length ds) xs)) ys
     = ds @ take (n - length ds) (xs @ ys)"
  by (cases "length xs \<le> n - length ds") (auto simp: min_def)

lemma record_tools_effect:
  assumes "record_tools st tools = Inr st'"
  shows "st' = st\<lparr>tool_usage := foldl counter_incr (tool_usage st) (map name tools),
                  files_touched := files_touched st \<union> path_targets tools,
                  tool_details := tool_details st
                    @ take (MAX_TOOL_DETAILS - length (tool_details st)) tools\<rparr>"
  using assms
proof (induction tools arbitrary: st)
  case Nil
  then show ?case by (simp add: path_targets_def)
next
  case (Cons tool tools)
  from Cons.prems obtain st1 where st1: "record_tool st tool = Inr st1"
    and rest: "record_tools st1 tools = Inr st'"
    by (auto split: sum.splits)
  note e1 = record_tool_effect [OF st1]
  have pt: "path_targets (tool # tools) = path_targets [tool] \<union> path_targets tools"
    by (auto simp: path_targets_def)
  have td: "take (MAX_TOOL_DETAILS - length (tool_details st)) [tool]
      @ take (MAX_TOOL_DETAILS
              - (length (tool_details st)
                 + min (Suc 0) (MAX_TOOL_DETAILS - length (tool_details st)))) tools
    = take (MAX_TOOL_DETAILS - length (tool_details st)) (tool # tools)"
  proof (cases "MAX_TOOL_DETAILS - length (tool_details st)")
    case 0
    then show ?thesis by simp
  next
    case (Suc m)
    then have "MAX_TOOL_DETAILS - (length (tool_details st) + Suc 0) = m" by arith
    with Suc show ?thesis by simp
  qed
  show ?case
    apply (subst Cons.IH [OF rest])
    apply (subst (1 2 3 4 5) e1)
    apply (simp add: pt td Un_assoc)
    done
qed

lemma on_assistant_Inr:
  assumes "on_assistant rt st obj = Inr st'"
  shows "\<exists>msg st3 tools.
      dict_get obj ''message'' (JObj []) = JObj msg
    \<and> extract_tool_calls rt (dict_get msg ''content'' (JArr [])) = Inr tools
    \<and> record_tools st3 tools = Inr st'
    \<and> tool_usage st3 = tool_usage st \<and> files_touched st3 = files_touched st
    \<and> tool_details st3 = tool_details st \<and> user_messages st3 = user_messages st
    \<and> lines_skipped st3 = lines_skipped st
    \<and> assistant_texts st3 = assistant_texts st
          @ filter (\<lambda>t. strip t \<noteq> [])
              [extract_text_from_content rt (dict_get msg ''content'' (JArr [])) MAX_TEXT_PER_MESSAGE]"
proof -
  from assms obtain msg where msg: "dict_get obj ''message'' (JObj []) = JObj msg"
    by (cases "dict_get obj ''message'' (JObj [])") (simp_all add: on_assistant_def)
  define content where "content = dict_get msg ''content'' (JArr [])"
  define model where "model = dict_get msg ''model'' (JStr [])"
  define st1 where "st1 = (if truthy model
                           then st\<lparr>models_used := set_add (models_used st) model\<rparr>
                           else st)"
  define usage where "usage = dict_get msg ''usage'' (JObj [])"
  from assms msg obtain i ti ou tou where
      "get usage ''input_tokens'' (JInt 0) = Inr i"
      "add_int (total_input_tokens st1) i = Inr ti"
      "get usage ''output_tokens'' (JInt 0) = Inr ou"
      "add_int (total_output_tokens st1) ou = Inr tou"
    and run: "(let st2 = st1\<lparr>total_input_tokens := ti, total_output_tokens := tou\<rparr>;
                   text = extract_text_from_content rt content MAX_TEXT_PER_MESSAGE;
                   st3 = (if strip text \<noteq> []
                          then st2\<lparr>assistant_texts := assistant_texts st2 @ [text]\<rparr>
                          else st2)
               in case extract_tool_calls rt content of
                    Inl e \<Rightarrow> Inl e
                  | Inr tools \<Rightarrow> record_tools st3 tools) = Inr st'"
    unfolding on_assistant_def Let_def content_def model_def st1_def usage_def
    by (simp split: if_splits sum.splits)
  define st3 where "st3 = (if strip (extract_text_from_content rt content MAX_TEXT_PER_MESSAGE) \<noteq> []
      then st1\<lparr>total_input_tokens := ti, total_output_tokens := tou,
               assistant_texts := assistant_texts st1
                 @ [extract_text_from_content rt content MAX_TEXT_PER_MESSAGE]\<rparr>
      else st1\<lparr>total_input_tokens := ti, total_output_tokens := tou\<rparr>)"
  from run obtain tools where tools: "extract_tool_calls rt content = Inr tools"
    and rec: "record_tools st3 tools = Inr st'"
    unfolding Let_def st3_def by (auto split: sum.splits if_splits)
  have "tool_usage st3 = tool_usage st" "files_touched st3 = files_touched st"
    "tool_details st3 = tool_details st" "user_messages st3 = user_messages st"
    "lines_skipped st3 = lines_skipped st"
    "assistant_texts st3 = assistant_texts st
       @ filter (\<lambda>t. strip t \<noteq> []) [extract_text_from_content rt content MAX_TEXT_PER_MESSAGE]"
    by (simp_all add: st3_def st1_def)
  with msg tools rec show ?thesis
    unfolding content_def by blast
qed

lemma on_summary_fields:
  shows "tool_usage (on_summary rt st obj) = tool_usage st"
    and "files_touched (on_summary rt st obj) = files_touched st"
    and "tool_details (on_summary rt st obj) = tool_details st"
    and "user_messages (on_summary rt st obj) = user_messages st"
    and "assistant_texts (on_summary rt st obj) = assistant_texts st
           @ (if truthy (dict_get obj ''summary'' (JStr []))
              then [context_summary rt (dict_get obj ''summary'' (JStr []))] else [])"
  by (simp_all add: on_summary_def Let_def)

lemma on_user_Inr:
  assumes "on_user rt st obj = Inr st'"
  shows "tool_usage st' = tool_usage st"
    and "files_touched st' = files_touched st"
    and "tool_details st' = tool_details st"
    and "assistant_texts st' = assistant_texts st"
    and "\<exists>content. get (dict_get obj ''message'' (JObj [])) ''content'' (JStr []) = Inr content
           \<and> user_messages st' = user_messages st
               @ filter (\<lambda>t. strip t \<noteq> [])
                   [extract_text_from_content rt content MAX_TEXT_PER_MESSAGE]"
proof -
  from assms obtain content where
    c: "get (dict_get obj ''message'' (JObj [])) ''content'' (JStr []) = Inr content"
    and st': "st' = (if strip (extract_text_from_content rt content MAX_TEXT_PER_MESSAGE) \<noteq> []
                 then st\<lparr>user_messages := user_messages st
                          @ [extract_text_from_content rt content MAX_TEXT_PER_MESSAGE]\<rparr>
                 else st)"
    by (auto simp: on_user_def Let_def split: sum.splits)
  show "tool_usage st' = tool_usage st" "files_touched st' = files_touched st"
    "tool_details st' = tool_details st" "assistant_texts st' = assistant_texts st"
    by (simp_all add: st')
  have "user_messages st' = user_messages st
      @ filter (\<lambda>t. strip t \<noteq> []) [extract_text_from_content rt content MAX_TEXT_PER_MESSAGE]"
    by (simp add: st')
  with c show "\<exists>content. get (dict_get obj ''message'' (JObj [])) ''content'' (JStr []) = Inr content
           \<and> user_messages st' = user_messages st
               @ filter (\<lambda>t. strip t \<noteq> [])
                   [extract_text_from_content rt content MAX_TEXT_PER_MESSAGE]"
    by blast
qed

text \<open>
  What one parsed record, one line and a whole log do to the tool tables and to the two
  text streams.
\<close>

lemma process_record_effect:
  assumes "process_record rt st obj = Inr st'"
  shows "tool_usage st' = foldl counter_incr (tool_usage st) (map name (record_invocations rt obj))"
    and "files_touched st' = files_touched st \<union> path_targets (record_invocations rt obj)"
    and "tool_details st' = tool_details st
           @ take (MAX_TOOL_DETAILS - length (tool_details st)) (record_invocations rt obj)"
    and "user_messages st' = user_messages st @ record_user_texts rt obj"
    and "assistant_texts st' = assistant_texts st @ record_assistant_texts rt obj"
proof -
  from assms obtain kvs where obj: "obj = JObj kvs"
    by (cases obj) (simp_all add: process_record_def)
  define st1 where "st1 = (if truthy (dict_get kvs ''timestamp'' JNull)
      then st\<lparr>timestamps := timestamps st @ [dict_get kvs ''timestamp'' JNull]\<rparr> else st)"
  define st2 where "st2 = (if \<not> truthy (git_branch st1) \<and> truthy (dict_get kvs ''gitBranch'' JNull)
      then st1\<lparr>git_branch := dict_get kvs ''gitBranch'' JNull\<rparr> else st1)"
  have same: "tool_usage st2 = tool_usage st" "files_touched st2 = files_touched st"
    "tool_details st2 = tool_details st" "user_messages st2 = user_messages st"
    "assistant_texts st2 = assistant_texts st"
    by (simp_all add: st2_def st1_def)
  define ty where "ty = dict_get kvs ''type'' JNull"
  from assms have step: "(if ty = JStr ''summary'' then Inr (on_summary rt st2 kvs)
      else if ty = JStr ''user'' then on_user rt st2 kvs
      else if ty = JStr ''assistant'' then on_assistant rt st2 kvs
      else Inr st2) = Inr st'"
    unfolding process_record_def obj Let_def json.case st1_def st2_def ty_def .
  let ?I = "record_invocations rt obj"
  let ?U = "record_user_texts rt obj"
  let ?A = "record_assistant_texts rt obj"
  have quiet: "tool_usage st' = foldl counter_incr (tool_usage st) (map name ?I)
      \<and> files_touched st' = files_touched st \<union> path_targets ?I
      \<and> tool_details st' = tool_details st @ take (MAX_TOOL_DETAILS - length (tool_details st)) ?I"
    if "?I = []" "tool_usage st' = tool_usage st2"
      "files_touched st' = files_touched st2" "tool_details st' = tool_details st2"
    using that same by (simp add: path_targets_def)
  consider (summary) "ty = JStr ''summary''" | (user) "ty = JStr ''user''"
    | (assistant) "ty = JStr ''assistant''"
    | (other) "ty \<noteq> JStr ''summary''" "ty \<noteq> JStr ''user''" "ty \<noteq> JStr ''assistant''"
    by blast
  then have all: "(tool_usage st' = foldl counter_incr (tool_usage st) (map name ?I)
      \<and> files_touched st' = files_touched st \<union> path_targets ?I
      \<and> tool_details st' = tool_details st @ take (MAX_TOOL_DETAILS - length (tool_details st)) ?I)
    \<and> user_messages st' = user_messages st @ ?U
    \<and> assistant_texts st' = assistant_texts st @ ?A"
  proof cases
    case summary
    then have inv: "?I = []"
      by (simp add: record_invocations_def obj ty_def)
    from summary have u: "?U = []"
      by (simp add: record_user_texts_def obj ty_def)
    from summary have a: "?A = (if truthy (dict_get kvs ''summary'' (JStr []))
        then [context_summary rt (dict_get kvs ''summary'' (JStr []))] else [])"
      by (simp add: record_assistant_texts_def obj ty_def)
    from step summary have st': "st' = on_summary rt st2 kvs" by simp
    note f = on_summary_fields [of rt st2 kvs, folded st']
    have "user_messages st' = user_messages st @ ?U"
      using f(4) same(4) by (simp add: u)
    moreover have "assistant_texts st' = assistant_texts st @ ?A"
      using f(5) unfolding same(5) a .
    ultimately show ?thesis using quiet [OF inv f(1,2,3)] by blast
  next
    case user
    then have inv: "?I = []"
      by (simp add: record_invocations_def obj ty_def)
    from user have a: "?A = []"
      by (simp add: record_assistant_texts_def obj ty_def)
    from step user have "on_user rt st2 kvs = Inr st'" by simp
    note f = on_user_Inr [OF this]
    from f(5) obtain content where
      c: "get (dict_get kvs ''message'' (JObj [])) ''content'' (JStr []) = Inr content"
      and um: "user_messages st' = user_messages st2
          @ filter (\<lambda>t. strip t \<noteq> []) [extract_text_from_content rt content MAX_TEXT_PER_MESSAGE]"
      by blast
    from user c have u: "?U
        = filter (\<lambda>t. strip t \<noteq> []) [extract_text_from_content rt content MAX_TEXT_PER_MESSAGE]"
      by (simp add: record_user_texts_def obj ty_def)
    have "user_messages st' = user_messages st @ ?U"
      using um unfolding same(4) u .
    moreover have "assistant_texts st' = assistant_texts st @ ?A"
      using f(4) same(5) by (simp add: a)
    ultimately show ?thesis using quiet [OF inv f(1,2,3)] by blast
  next
    case assistant
    with step have "on_assistant rt st2 kvs = Inr st'" by simp
    from on_assistant_Inr [OF this] obtain msg st3 tools where
      msg: "dict_get kvs ''message'' (JObj []) = JObj msg"
      and tools: "extract_tool_calls rt (dict_get msg ''content'' (JArr [])) = Inr tools"
      and rec: "record_tools st3 tools = Inr st'"
      and st3: "tool_usage st3 = tool_usage st2" "files_touched st3 = files_touched st2"
        "tool_details st3 = tool_details st2" "user_messages st3 = user_messages st2"
      and atx: "assistant_texts st3 = assistant_texts st2
          @ filter (\<lambda>t. strip t \<noteq> [])
              [extract_text_from_content rt (dict_get msg ''content'' (JArr [])) MAX_TEXT_PER_MESSAGE]"
      by blast
    have inv: "?I = tools"
      using assistant msg tools by (simp add: record_invocations_def obj ty_def)
    from assistant have u: "?U = []"
      by (simp add: record_user_texts_def obj ty_def)
    from assistant msg have a: "?A = filter (\<lambda>t. strip t \<noteq> [])
        [extract_text_from_content rt (dict_get msg ''content'' (JArr [])) MAX_TEXT_PER_MESSAGE]"
      by (simp add: record_assistant_texts_def obj ty_def)
    note e = record_tools_effect [OF rec]
    have 1: "tool_usage st' = foldl counter_incr (tool_usage st3) (map name tools)"
      by (subst e) simp
    have 2: "files_touched st' = files_touched st3 \<union> path_targets tools"
      by (subst e) simp
    have 3: "tool_details st' = tool_details st3 @ take (MAX_TOOL_DETAILS - length (tool_details st3)) tools"
      by (subst e) simp
    have 4: "user_messages st' = user_messages st3"
      by (subst e) simp
    have 5: "assistant_texts st' = assistant_texts st3"
      by (subst e) simp
    have "user_messages st' = user_messages st @ ?U"
      using 4 st3(4) same(4) by (simp add: u)
    moreover have "assistant_texts st' = assistant_texts st @ ?A"
      using atx unfolding 5 same(5) a .
    ultimately show ?thesis
      using 1 2 3 unfolding inv st3 same by blast
  next
    case other
    then have inv: "?I = []"
      by (simp add: record_invocations_def obj ty_def)
    from other have u: "?U = []" and a: "?A = []"
      by (simp_all add: record_user_texts_def record_assistant_texts_def obj ty_def)
    from step other have st': "st' = st2" by simp
    have "user_messages st' = user_messages st @ ?U"
      using same(4) by (simp add: u st')
    moreover have "assistant_texts st' = assistant_texts st @ ?A"
      using same(5) by (simp add: a st')
    ultimately show ?thesis using quiet [OF inv] st' by blast
  qed
  from all show "tool_usage st' = foldl counter_incr (tool_usage st) (map name ?I)"
    and "files_touched st' = files_touched st \<union> path_targets ?I"
    and "tool_details st' = tool_details st @ take (MAX_TOOL_DETAILS - length (tool_details st)) ?I"
    and "user_messages st' = user_messages st @ ?U"
    and "assistant_texts st' = assistant_texts st @ ?A"
    by blast+
qed

text \<open>The outcomes of \<^verbatim>\<open>json.loads\<close> on a line that \<open>process_line\<close> accepts.\<close>

lemma process_line_cases:
  assumes "process_line rt st line = Inr st'"
  obtains (blank) "strip line = []" "st' = st"
    | (bad) "strip line \<noteq> []" "json_loads rt (strip line) = Inl JSONDecodeError"
        "st' = st\<lparr>lines_skipped := lines_skipped st + 1\<rparr>"
    | (parsed) obj where "strip line \<noteq> []" "json_loads rt (strip line) = Inr obj"
        "process_record rt (st\<lparr>lines_processed := lines_processed st + 1\<rparr>) obj = Inr st'"
proof (cases "strip line = []")
  case True
  with assms have "st' = st" by (simp add: process_line_def)
  with True show ?thesis by (rule blank)
next
  case False
  show ?thesis
  proof (cases "json_loads rt (strip line)")
    case (Inl e)
    with assms False have e: "e = JSONDecodeError"
      by (simp add: process_line_def split: if_splits)
    with assms False Inl have "st' = st\<lparr>lines_skipped := lines_skipped st + 1\<rparr>"
      by (simp add: process_line_def)
    with False Inl e show ?thesis by (simp add: bad)
  next
    case (Inr obj)
    with assms False have
      "process_record rt (st\<lparr>lines_processed := lines_processed st + 1\<rparr>) obj = Inr st'"
      by (simp add: process_line_def)
    with False Inr show ?thesis by (rule parsed)
  qed
qed

lemma process_line_effect:
  assumes "process_line rt st line = Inr st'"
  shows "tool_usage st' = foldl counter_incr (tool_usage st) (map name (line_invocations rt line))"
    and "files_touched st' = files_touched st \<union> path_targets (line_invocations rt line)"
    and "tool_details st' = tool_details st
           @ take (MAX_TOOL_DETAILS - length (tool_details st)) (line_invocations rt line)"
    and "user_messages st' = user_messages st
           @ concat (map (record_user_texts rt) (line_records rt line))"
    and "assistant_texts st' = assistant_texts st
           @ concat (map (record_assistant_texts rt) (line_records rt line))"
proof -
  let ?I = "line_invocations rt line"
  let ?U = "concat (map (record_user_texts rt) (line_records rt line))"
  let ?A = "concat (map (record_assistant_texts rt) (line_records rt line))"
  from assms have all: "(tool_usage st' = foldl counter_incr (tool_usage st) (map name ?I)
      \<and> files_touched st' = files_touched st \<union> path_targets ?I
      \<and> tool_details st' = tool_details st @ take (MAX_TOOL_DETAILS - length (tool_details st)) ?I)
    \<and> user_messages st' = user_messages st @ ?U
    \<and> assistant_texts st' = assistant_texts st @ ?A"
  proof (cases rule: process_line_cases)
    case blank
    then have "?I = []" "line_records rt line = []"
      by (simp_all add: line_invocations_def line_records_def)
    with blank show ?thesis by (simp add: path_targets_def)
  next
    case bad
    then have "?I = []" "line_records rt line = []"
      by (simp_all add: line_invocations_def line_records_def)
    with bad show ?thesis by (simp add: path_targets_def)
  next
    case (parsed obj)
    then have inv: "?I = record_invocations rt obj" and recs: "line_records rt line = [obj]"
      by (simp_all add: line_invocations_def line_records_def)
    from process_record_effect [OF parsed(3)] show ?thesis
      unfolding inv recs by simp
  qed
  from all show "tool_usage st' = foldl counter_incr (tool_usage st) (map name ?I)"
    and "files_touched st' = files_touched st \<union> path_targets ?I"
    and "tool_details st' = tool_details st @ take (MAX_TOOL_DETAILS - length (tool_details st)) ?I"
    and "user_messages st' = user_messages st @ ?U"
    and "assistant_texts st' = assistant_texts st @ ?A"
    by blast+
qed

lemma path_targets_append: "path_targets (xs @ ys) = path_targets xs \<union> path_targets ys"
  by (auto simp: path_targets_def)

lemma process_lines_effect:
  assumes "process_lines rt st lines = Inr st'"
  shows "tool_usage st' = foldl counter_incr (tool_usage st) (map name (invocations rt lines))
    \<and> files_touched st' = files_touched st \<union> path_targets (invocations rt lines)
    \<and> tool_details st' = tool_details st
           @ take (MAX_TOOL_DETAILS - length (tool_details st)) (invocations rt lines)
    \<and> user_messages st' = user_messages st @ user_texts rt lines
    \<and> assistant_texts st' = assistant_texts st @ assistant_stream rt lines"
  using assms
proof (induction lines arbitrary: st)
  case Nil
  then show ?case
    by (simp add: invocations_def path_targets_def user_texts_def assistant_stream_def)
next
  case (Cons line lines)
  from Cons.prems obtain st1 where l: "process_line rt st line = Inr st1"
    and r: "process_lines rt st1 lines = Inr st'"
    by (auto split: sum.splits)
  note e = process_line_effect [OF l]
  note ih = Cons.IH [OF r]
  have inv: "invocations rt (line # lines) = line_invocations rt line @ invocations rt lines"
    by (simp add: invocations_def)
  have ut: "user_texts rt (line # lines)
      = concat (map (record_user_texts rt) (line_records rt line)) @ user_texts rt lines"
    by (simp add: user_texts_def)
  have at: "assistant_stream rt (line # lines)
      = concat (map (record_assistant_texts rt) (line_records rt line)) @ assistant_stream rt lines"
    by (simp add: assistant_stream_def)
  have 1: "tool_usage st' = foldl counter_incr (tool_usage st) (map name (invocations rt (line # lines)))"
    using ih e(1) by (simp add: inv)
  have 2: "files_touched st' = files_touched st \<union> path_targets (invocations rt (line # lines))"
    using ih e(2) by (simp add: inv path_targets_append Un_assoc)
  have 3: "tool_details st' = tool_details st
           @ take (MAX_TOOL_DETAILS - length (tool_details st)) (invocations rt (line # lines))"
    using ih e(3) by (simp only: inv take_details_append)
  have 4: "user_messages st' = user_messages st @ user_texts rt (line # lines)"
    using ih e(4) by (simp add: ut)
  have 5: "assistant_texts st' = assistant_texts st @ assistant_stream rt (line # lines)"
    using ih e(5) by (simp add: at)
  from 1 2 3 4 5 show ?case by blast
qed

lemma session_state_of_log:
  assumes "process_lines rt initial_state lines = Inr st"
  shows "tool_usage st = foldl counter_incr [] (map name (invocations rt lines))"
    and "files_touched st = path_targets (invocations rt lines)"
    and "tool_details st = take MAX_TOOL_DETAILS (invocations rt lines)"
    and "user_messages st = user_texts rt lines"
    and "assistant_texts st = assistant_stream rt lines"
  using process_lines_effect [OF assms] by (simp_all add: initial_state_def)

subsection \<open>The shape of the conversation flow\<close>

text \<open>
  Claim C1, as the code has it. With \<open>users\<close> the first 40 texts of the user stream of the
  log and \<open>assts\<close> its assistant stream, the flow of every session the compactor summarises
  is the interleaving of the two: one user turn for each text of \<open>users\<close>, in order and with
  that text, each followed by the assistant text of the same index while there is one. So
  it has at most 40 user turns and at most 80 entries, it starts with a user entry, its
  entries are user, assistant pairs while assistant texts last and user entries alone
  after that, and it strictly alternates exactly when \<open>users\<close> has at most one text more
  than \<open>assts\<close>. A log with 50 user messages and 45 assistant texts gives 40 user and 40
  assistant turns.
\<close>

theorem conversation_flow_shape:
  fixes rt :: python and f :: session_file
  defines "users \<equiv> take MAX_CONVERSATION_EXCHANGES (user_texts rt (file_lines f))"
    and "assts \<equiv> assistant_stream rt (file_lines f)"
  assumes "process_session rt f = Inr (s, skipped)"
  shows "s_conversation_flow s = interleave users assts
    \<and> length users \<le> 40
    \<and> length (s_conversation_flow s) \<le> 80
    \<and> length (s_conversation_flow s) = length users + min (length users) (length assts)
    \<and> count_role ''user'' (s_conversation_flow s) = length users
    \<and> count_role ''assistant'' (s_conversation_flow s) = min (length users) (length assts)
    \<and> (s_conversation_flow s \<noteq> [] \<longrightarrow> role (hd (s_conversation_flow s)) = ''user'')
    \<and> (\<forall>i < length (s_conversation_flow s).
          role (s_conversation_flow s ! i) =
            (if i < 2 * min (length users) (length assts) \<and> odd i
             then ''assistant'' else ''user''))
    \<and> alternates (s_conversation_flow s) = (length users \<le> Suc (length assts))
    \<and> (length (user_texts rt (file_lines f)) = 50 \<and> length assts = 45
        \<longrightarrow> count_role ''user'' (s_conversation_flow s) = 40
            \<and> count_role ''assistant'' (s_conversation_flow s) = 40)"
proof -
  from assms(3) obtain st where lines: "process_lines rt initial_state (file_lines f) = Inr st"
    and st: "build_summary rt f st = Inr s"
    by (rule process_session_Inr)
  have flow: "s_conversation_flow s = interleave users assts"
    using build_summary_Inr(1)[OF st]
    by (simp add: build_flow_interleave users_def assts_def session_state_of_log(4,5) [OF lines])
  have le: "length users \<le> 40"
    by (simp add: users_def MAX_CONVERSATION_EXCHANGES_def)
  have 1: "length (s_conversation_flow s) \<le> 80"
    using le by (simp add: flow length_interleave)
  have 2: "length (s_conversation_flow s) = length users + min (length users) (length assts)"
    by (simp add: flow length_interleave)
  have 3: "count_role ''user'' (s_conversation_flow s) = length users"
    by (simp add: flow count_user_interleave)
  have 4: "count_role ''assistant'' (s_conversation_flow s) = min (length users) (length assts)"
    by (simp add: flow count_assistant_interleave)
  have 5: "s_conversation_flow s \<noteq> [] \<longrightarrow> role (hd (s_conversation_flow s)) = ''user''"
    by (simp add: flow hd_interleave)
  have 6: "\<forall>i < length (s_conversation_flow s).
          role (s_conversation_flow s ! i) =
            (if i < 2 * min (length users) (length assts) \<and> odd i
             then ''assistant'' else ''user'')"
    unfolding flow using role_interleave by blast
  have 7: "alternates (s_conversation_flow s) = (length users \<le> Suc (length assts))"
    unfolding flow by (rule alternates_interleave)
  have 8: "length (user_texts rt (file_lines f)) = 50 \<and> length assts = 45
        \<longrightarrow> count_role ''user'' (s_conversation_flow s) = 40
            \<and> count_role ''assistant'' (s_conversation_flow s) = 40"
    using 3 4 by (auto simp: users_def MAX_CONVERSATION_EXCHANGES_def)
  from flow le 1 2 3 4 5 6 7 8 show ?thesis by blast
qed

theorem conversation_flow_shape_witness:
  "process_session example_python (session_of (replicate 50 user_line @ replicate 45 assistant_line))
     = Inr (projr (process_session example_python
                     (session_of (replicate 50 user_line @ replicate 45 assistant_line))))
   \<and> length (user_texts example_python (replicate 50 user_line @ replicate 45 assistant_line)) = 50
   \<and> length (assistant_stream example_python
               (replicate 50 user_line @ replicate 45 assistant_line)) = 45
   \<and> alternates (s_conversation_flow (fst (projr (process_session example_python
                     (session_of (replicate 50 user_line @ replicate 45 assistant_line))))))
   \<and> count_role ''user'' (s_conversation_flow (fst (projr (process_session example_python
                     (session_of (replicate 50 user_line @ replicate 45 assistant_line)))))) = 40
   \<and> count_role ''assistant'' (s_conversation_flow (fst (projr (process_session example_python
                     (session_of (replicate 50 user_line @ replicate 45 assistant_line)))))) = 40"
proof -
  define ls where "ls = replicate 50 user_line @ replicate 45 assistant_line"
  define r where "r = process_session example_python (session_of ls)"
  have ev: "\<not> isl r"
    unfolding r_def ls_def by code_simp
  then have eq: "r = Inr (fst (projr r), snd (projr r))"
    by (cases r) auto
  have streams: "length (user_texts example_python ls) = 50
      \<and> length (assistant_stream example_python ls) = 45"
    unfolding ls_def by code_simp
  have fl: "file_lines (session_of ls) = ls"
    by (simp add: session_of_def)
  from conversation_flow_shape [OF eq [unfolded r_def]] streams
  show ?thesis
    unfolding ls_def [symmetric] r_def [symmetric] fl using eq
    by (simp add: MAX_CONVERSATION_EXCHANGES_def alternates_interleave count_user_interleave
        count_assistant_interleave)
qed

text \<open>
  The claim as written asks for strict alternation in every flow. A log of two user
  messages and no assistant text gives two user entries in a row.
\<close>

theorem conversation_flow_alternation_counterexample:
  "\<not> isl (process_session example_python (session_of [user_line, user_line]))
   \<and> map role (s_conversation_flow (fst (projr
        (process_session example_python (session_of [user_line, user_line])))))
       = [''user'', ''user'']
   \<and> \<not> alternates (s_conversation_flow (fst (projr
        (process_session example_python (session_of [user_line, user_line])))))"
  by code_simp

subsection \<open>The usage counter\<close>

lemma same_key_refl [simp]: "same_key k k"
  by (simp add: same_key_def)

lemma same_key_trans: "same_key a b \<Longrightarrow> same_key b c \<Longrightarrow> same_key a c"
  by (simp add: same_key_def)

lemma same_key_sym: "same_key a b \<Longrightarrow> same_key b a"
  by (simp add: same_key_def)

lemma counter_get_incr:
  "counter_get (counter_incr c k') k = counter_get c k + (if same_key k' k then 1 else 0)"
proof (induction c)
  case Nil
  then show ?case by simp
next
  case (Cons item c)
  obtain k0 n where item: "item = (k0, n)" by (cases item)
  show ?case
    using Cons.IH unfolding item
    by (auto dest: same_key_trans same_key_sym)
qed

lemma counter_get_foldl:
  "counter_get (foldl counter_incr c ks) k
     = counter_get c k + length (filter (\<lambda>k'. same_key k' k) ks)"
  by (induction ks arbitrary: c) (simp_all add: counter_get_incr)

lemma keys_counter_incr:
  "set (map (key_of \<circ> fst) (counter_incr c k)) = insert (key_of k) (set (map (key_of \<circ> fst) c))"
proof (induction c)
  case Nil
  then show ?case by simp
next
  case (Cons item c)
  obtain k0 n where item: "item = (k0, n)" by (cases item)
  show ?case
  proof (cases "same_key k0 k")
    case True
    then have "key_of k0 = key_of k" by (simp add: same_key_def)
    with True show ?thesis by (simp add: item)
  next
    case False
    with Cons.IH show ?thesis by (simp add: item insert_commute)
  qed
qed

lemma distinct_counter_incr:
  "distinct (map (key_of \<circ> fst) c) \<Longrightarrow> distinct (map (key_of \<circ> fst) (counter_incr c k))"
proof (induction c)
  case Nil
  then show ?case by simp
next
  case (Cons item c)
  obtain k0 n where item: "item = (k0, n)" by (cases item)
  show ?case
  proof (cases "same_key k0 k")
    case True
    with Cons.prems show ?thesis by (simp add: item)
  next
    case False
    have "key_of k0 \<notin> set (map (key_of \<circ> fst) (counter_incr c k))"
      using False Cons.prems unfolding keys_counter_incr item by (auto simp: same_key_def)
    with False Cons show ?thesis by (simp add: item)
  qed
qed

lemma distinct_counter_foldl:
  "distinct (map (key_of \<circ> fst) c) \<Longrightarrow> distinct (map (key_of \<circ> fst) (foldl counter_incr c ks))"
  by (induction ks arbitrary: c) (simp_all add: distinct_counter_incr)

text \<open>With one item per key, a lookup does not depend on the order of the items.\<close>

lemma counter_get_member:
  assumes "distinct (map (key_of \<circ> fst) c)" and "(k0, n) \<in> set c" and "same_key k0 k"
  shows "counter_get c k = n"
  using assms
proof (induction c)
  case Nil
  then show ?case by simp
next
  case (Cons item c)
  obtain k1 m where item: "item = (k1, m)" by (cases item)
  show ?case
  proof (cases "(k0, n) = (k1, m)")
    case True
    with Cons.prems(3) show ?thesis by (simp add: item)
  next
    case False
    with Cons.prems(2) have mem: "(k0, n) \<in> set c" by (auto simp: item)
    then have "(key_of \<circ> fst) (k0, n) \<in> (key_of \<circ> fst) ` set c" by (rule imageI)
    then have "key_of k0 \<in> set (map (key_of \<circ> fst) c)" by simp
    moreover from Cons.prems(1) have "key_of k1 \<notin> set (map (key_of \<circ> fst) c)"
      by (simp add: item)
    ultimately have "key_of k1 \<noteq> key_of k0" by metis
    with Cons.prems(3) have "\<not> same_key k1 k" by (simp add: same_key_def)
    with Cons.IH [OF _ mem Cons.prems(3)] Cons.prems(1) show ?thesis by (simp add: item)
  qed
qed

lemma counter_get_absent:
  assumes "\<forall>(k0, n) \<in> set c. \<not> same_key k0 k"
  shows "counter_get c k = 0"
  using assms by (induction c) auto

lemma counter_get_set:
  assumes "distinct (map (key_of \<circ> fst) c)" and "distinct (map (key_of \<circ> fst) c')"
    and "set c' = set c"
  shows "counter_get c' k = counter_get c k"
proof (cases "\<exists>(k0, n) \<in> set c. same_key k0 k")
  case True
  then obtain k0 n where "(k0, n) \<in> set c" "same_key k0 k" by blast
  then show ?thesis
    using counter_get_member [OF assms(1), of k0 n k] counter_get_member [OF assms(2), of k0 n k]
      assms(3) by simp
next
  case False
  then have "\<forall>(k0, n) \<in> set c. \<not> same_key k0 k" by blast
  then show ?thesis
    using counter_get_absent [of c k] counter_get_absent [of c' k] assms(3) by simp
qed

lemma counter_get_most_common:
  assumes "distinct (map (key_of \<circ> fst) c)"
  shows "counter_get (most_common c) k = counter_get c k"
proof (rule counter_get_set [OF assms])
  show "set (most_common c) = set c" by (simp add: most_common_def)
  from assms have "distinct c" by (simp add: distinct_map)
  from assms have "inj_on (key_of \<circ> fst) (set c)" by (simp add: distinct_map)
  then show "distinct (map (key_of \<circ> fst) (most_common c))"
    using \<open>distinct c\<close> by (simp add: most_common_def distinct_map)
qed

lemma sum_counter_incr: "sum_list (map snd (counter_incr c k)) = Suc (sum_list (map snd c))"
  by (induction c) auto

lemma sum_counter_foldl:
  "sum_list (map snd (foldl counter_incr c ks)) = sum_list (map snd c) + length ks"
  by (induction ks arbitrary: c) (simp_all add: sum_counter_incr)

lemma sum_insort_key:
  "sum_list (map snd (insort_key g x xs)) = snd x + sum_list (map snd xs)"
  for x :: "json \<times> nat" and g :: "json \<times> nat \<Rightarrow> int"
  by (induction xs) auto

lemma sum_most_common: "sum_list (map snd (most_common c)) = sum_list (map snd c)"
  unfolding most_common_def sort_key_def
  by (induction c) (simp_all add: sum_insort_key)

text \<open>
  Claim C7. For every session the compactor summarises, the usage table gives for each
  tool name the number of invocations of that name in the whole log, and the counts add
  up to the number of invocations, while the detail list keeps the first 30 only.
\<close>

theorem tool_usage_exact:
  assumes "process_session rt f = Inr (s, skipped)"
  shows "counter_get (s_tool_usage s) nm
           = length (filter (\<lambda>t. same_key (name t) nm) (invocations rt (file_lines f)))
    \<and> sum_list (map snd (s_tool_usage s)) = length (invocations rt (file_lines f))
    \<and> s_tool_details s = take MAX_TOOL_DETAILS (invocations rt (file_lines f))"
proof -
  from assms obtain st where lines: "process_lines rt initial_state (file_lines f) = Inr st"
    and sum: "build_summary rt f st = Inr s"
    by (rule process_session_Inr)
  let ?I = "invocations rt (file_lines f)"
  note st = session_state_of_log [OF lines]
  have d: "distinct (map (key_of \<circ> fst) (tool_usage st))"
    unfolding st(1) by (rule distinct_counter_foldl) simp
  have "counter_get (s_tool_usage s) nm = counter_get (tool_usage st) nm"
    unfolding build_summary_Inr(4) [OF sum] using d by (rule counter_get_most_common)
  also have "\<dots> = length (filter (\<lambda>k'. same_key k' nm) (map name ?I))"
    unfolding st(1) by (simp add: counter_get_foldl)
  also have "\<dots> = length (filter (\<lambda>t. same_key (name t) nm) ?I)"
    by (simp add: filter_map comp_def)
  finally have 1: "counter_get (s_tool_usage s) nm
           = length (filter (\<lambda>t. same_key (name t) nm) ?I)" .
  have 2: "sum_list (map snd (s_tool_usage s)) = length ?I"
    unfolding build_summary_Inr(4) [OF sum] sum_most_common st(1)
    by (simp add: sum_counter_foldl)
  have 3: "s_tool_details s = take MAX_TOOL_DETAILS ?I"
    unfolding build_summary_Inr(5) [OF sum] by (rule st(3))
  from 1 2 3 show ?thesis by blast
qed

theorem tool_usage_exact_witness:
  "process_session example_python (session_of (replicate 31 read_line @ [bash_line]))
     = Inr (projr (process_session example_python
                     (session_of (replicate 31 read_line @ [bash_line]))))
   \<and> length (invocations example_python (replicate 31 read_line @ [bash_line])) = 32
   \<and> counter_get (s_tool_usage (fst (projr (process_session example_python
         (session_of (replicate 31 read_line @ [bash_line])))))) (JStr ''Read'') = 31
   \<and> sum_list (map snd (s_tool_usage (fst (projr (process_session example_python
         (session_of (replicate 31 read_line @ [bash_line]))))))) = 32
   \<and> length (s_tool_details (fst (projr (process_session example_python
         (session_of (replicate 31 read_line @ [bash_line])))))) = 30"
proof -
  define r where "r = process_session example_python
    (session_of (replicate 31 read_line @ [bash_line]))"
  have ev: "\<not> isl r"
    unfolding r_def by code_simp
  then have eq: "r = Inr (fst (projr r), snd (projr r))"
    by (cases r) auto
  have inv: "length (invocations example_python (replicate 31 read_line @ [bash_line])) = 32
      \<and> length (filter (\<lambda>t. same_key (name t) (JStr ''Read''))
           (invocations example_python (replicate 31 read_line @ [bash_line]))) = 31"
    by code_simp
  have fl: "file_lines (session_of (replicate 31 read_line @ [bash_line]))
      = replicate 31 read_line @ [bash_line]"
    by (simp add: session_of_def)
  from tool_usage_exact [OF eq [unfolded r_def], of "JStr ''Read''"] inv
  show ?thesis
    unfolding r_def [symmetric] fl using eq by (simp add: MAX_TOOL_DETAILS_def)
qed

subsection \<open>The files touched\<close>

lemma target_only_of_file_tools:
  "nm \<notin> file_tools \<Longrightarrow>
   (case tool_details_of rt nm inp of Inr ds \<Rightarrow> map_of ds ''target'' = None | Inl e \<Rightarrow> True)"
  by (cases inp) (simp_all add: tool_details_of_def file_tools_def)

lemma tools_of_blocks_details:
  assumes "tools_of_blocks rt blocks = Inr tools" and "t \<in> set tools"
  shows "\<exists>inp. tool_details_of rt (name t) inp = Inr (details t)"
  using assms
proof (induction blocks arbitrary: tools)
  case Nil
  then show ?case by simp
next
  case (Cons block blocks)
  show ?case
  proof (cases "is_tool_use block")
    case False
    with Cons show ?thesis by simp
  next
    case True
    with Cons.prems(1) obtain t0 ts where t0: "tool_of_block rt block = Inr t0"
      and ts: "tools_of_blocks rt blocks = Inr ts" and tools: "tools = t0 # ts"
      by (auto split: sum.splits)
    from t0 have "\<exists>inp. tool_details_of rt (name t0) inp = Inr (details t0)"
      by (auto simp: tool_of_block_def Let_def split: json.splits sum.splits)
    with Cons.IH [OF ts] Cons.prems(2) tools show ?thesis by auto
  qed
qed

lemma record_invocations_details:
  assumes "t \<in> set (record_invocations rt obj)"
  shows "\<exists>inp. tool_details_of rt (name t) inp = Inr (details t)"
proof -
  have "\<exists>kvs. obj = JObj kvs"
  proof (rule ccontr)
    assume "\<not> (\<exists>kvs. obj = JObj kvs)"
    then have "record_invocations rt obj = []"
      by (cases obj) (simp_all add: record_invocations_def)
    with assms show False by simp
  qed
  then obtain kvs where obj: "obj = JObj kvs" by blast
  have ty: "dict_get kvs ''type'' JNull = JStr ''assistant''"
  proof (rule ccontr)
    assume "dict_get kvs ''type'' JNull \<noteq> JStr ''assistant''"
    then have "record_invocations rt obj = []"
      by (simp add: record_invocations_def obj)
    with assms show False by simp
  qed
  have "\<exists>msg. dict_get kvs ''message'' (JObj []) = JObj msg"
  proof (rule ccontr)
    assume "\<not> (\<exists>msg. dict_get kvs ''message'' (JObj []) = JObj msg)"
    then have "record_invocations rt obj = []"
      by (cases "dict_get kvs ''message'' (JObj [])") (simp_all add: record_invocations_def obj ty)
    with assms show False by simp
  qed
  then obtain msg where msg: "dict_get kvs ''message'' (JObj []) = JObj msg" by blast
  define content where "content = dict_get msg ''content'' (JArr [])"
  have inv: "record_invocations rt obj
      = (case extract_tool_calls rt content of Inr tools \<Rightarrow> tools | Inl e \<Rightarrow> [])"
    by (simp add: record_invocations_def obj ty msg content_def)
  obtain tools where tools: "extract_tool_calls rt content = Inr tools"
    and t: "t \<in> set tools"
  proof (cases "extract_tool_calls rt content")
    case (Inl e)
    with assms inv show ?thesis by simp
  next
    case (Inr tools)
    with assms inv that show ?thesis by simp
  qed
  have "\<exists>blocks. tools_of_blocks rt blocks = Inr tools"
  proof (cases content)
    case (JArr blocks)
    with tools show ?thesis by (auto simp: extract_tool_calls_def)
  qed (use tools t in \<open>simp_all add: extract_tool_calls_def\<close>)
  then obtain blocks where "tools_of_blocks rt blocks = Inr tools" by blast
  then show ?thesis using t by (rule tools_of_blocks_details)
qed

lemma invocations_details:
  assumes "t \<in> set (invocations rt lines)"
  shows "\<exists>inp. tool_details_of rt (name t) inp = Inr (details t)"
proof -
  from assms obtain line where "t \<in> set (line_invocations rt line)"
    by (auto simp: invocations_def)
  then obtain obj where "t \<in> set (record_invocations rt obj)"
    by (auto simp: line_invocations_def split: if_splits sum.splits)
  then show ?thesis by (rule record_invocations_details)
qed

lemma invocation_without_target:
  assumes "t \<in> set (invocations rt lines)" and "name t \<notin> file_tools"
  shows "map_of (details t) ''target'' = None"
proof -
  from invocations_details [OF assms(1)] obtain inp
    where "tool_details_of rt (name t) inp = Inr (details t)" by blast
  with target_only_of_file_tools [OF assms(2), of rt inp] show ?thesis by simp
qed

lemma path_targets_iff:
  "p \<in> path_targets tools \<longleftrightarrow>
     (\<exists>t \<in> set tools. map_of (details t) ''target'' = Some p \<and> p \<noteq> [] \<and> CHR ''/'' \<in> set p)"
proof
  assume "p \<in> path_targets tools"
  then obtain t where "t \<in> set tools" "tool_target t = p" "p \<noteq> []" "CHR ''/'' \<in> set p"
    by (auto simp: path_targets_def)
  then show "\<exists>t \<in> set tools. map_of (details t) ''target'' = Some p \<and> p \<noteq> [] \<and> CHR ''/'' \<in> set p"
    by (cases "map_of (details t) ''target''") (auto simp: tool_target_def)
next
  assume "\<exists>t \<in> set tools. map_of (details t) ''target'' = Some p \<and> p \<noteq> [] \<and> CHR ''/'' \<in> set p"
  then obtain t where t: "t \<in> set tools" "map_of (details t) ''target'' = Some p"
    and p: "p \<noteq> []" "CHR ''/'' \<in> set p" by blast
  from t(2) have "tool_target t = p" by (simp add: tool_target_def)
  with t(1) have "p \<in> set (map tool_target tools)" by force
  with p show "p \<in> path_targets tools" by (simp add: path_targets_def)
qed

lemma finite_path_targets: "finite (path_targets tools)"
  by (simp add: path_targets_def)

lemma set_take_sorted_list: "set (take n (sorted_list_of_set A)) \<subseteq> A"
proof (cases "finite A")
  case True
  then show ?thesis by (metis set_sorted_list_of_set set_take_subset)
next
  case False
  then show ?thesis by simp
qed

text \<open>
  Claim C8. The files-touched list of every summary has no duplicates, is in increasing
  lexicographic order, holds only targets with a path separator, and has at most 30
  entries: it is the first 30 of the sorted qualifying targets of the whole log.
\<close>

theorem files_touched_sorted_capped:
  assumes "process_session rt f = Inr (s, skipped)"
  shows "distinct (s_files_touched s) \<and> sorted (s_files_touched s)
    \<and> (\<forall>p \<in> set (s_files_touched s). CHR ''/'' \<in> set p)
    \<and> length (s_files_touched s) \<le> 30
    \<and> s_files_touched s
        = take 30 (sorted_list_of_set (path_targets (invocations rt (file_lines f))))"
proof -
  from assms obtain st where lines: "process_lines rt initial_state (file_lines f) = Inr st"
    and sum: "build_summary rt f st = Inr s"
    by (rule process_session_Inr)
  let ?P = "path_targets (invocations rt (file_lines f))"
  have eq: "s_files_touched s = take 30 (sorted_list_of_set ?P)"
    unfolding build_summary_Inr(6) [OF sum] session_state_of_log(2) [OF lines]
    by (simp add: MAX_FILES_TOUCHED_def)
  have 1: "distinct (s_files_touched s)"
    unfolding eq by (rule distinct_take) simp
  have 2: "sorted (s_files_touched s)"
    unfolding eq by (rule sorted_wrt_take) simp
  have "set (s_files_touched s) \<subseteq> ?P"
    unfolding eq by (rule set_take_sorted_list)
  then have 3: "\<forall>p \<in> set (s_files_touched s). CHR ''/'' \<in> set p"
    by (auto simp: path_targets_iff)
  have 4: "length (s_files_touched s) \<le> 30"
    unfolding eq by simp
  from 1 2 3 4 eq show ?thesis by blast
qed

text \<open>
  Claim C10. Every entry of the files-touched list is the \<^verbatim>\<open>target\<close> of a Read, Glob, Grep,
  Edit or Write invocation of the log. An invocation of any other tool (Bash, WebSearch,
  WebFetch, Task and the rest) has no target, whatever its command, query, URL or
  description holds, so it adds nothing to the set.
\<close>

theorem files_touched_from_targets:
  assumes "process_session rt f = Inr (s, skipped)"
  shows "(\<forall>p \<in> set (s_files_touched s).
            \<exists>t \<in> set (invocations rt (file_lines f)).
              name t \<in> file_tools \<and> map_of (details t) ''target'' = Some p)
    \<and> (\<forall>t \<in> set (invocations rt (file_lines f)).
            name t \<notin> file_tools \<longrightarrow>
              map_of (details t) ''target'' = None \<and> path_targets [t] = {})
    \<and> ((\<forall>t \<in> set (invocations rt (file_lines f)). name t \<notin> file_tools)
          \<longrightarrow> s_files_touched s = [])"
proof -
  from assms obtain st where lines: "process_lines rt initial_state (file_lines f) = Inr st"
    and sum: "build_summary rt f st = Inr s"
    by (rule process_session_Inr)
  let ?I = "invocations rt (file_lines f)"
  have sub: "set (s_files_touched s) \<subseteq> path_targets ?I"
    unfolding build_summary_Inr(6) [OF sum] session_state_of_log(2) [OF lines]
    by (rule set_take_sorted_list)
  have none: "map_of (details t) ''target'' = None" if "t \<in> set ?I" "name t \<notin> file_tools" for t
    using that by (rule invocation_without_target)
  have 1: "\<forall>p \<in> set (s_files_touched s).
            \<exists>t \<in> set ?I. name t \<in> file_tools \<and> map_of (details t) ''target'' = Some p"
  proof
    fix p assume "p \<in> set (s_files_touched s)"
    with sub have "p \<in> path_targets ?I" by blast
    then obtain t where t: "t \<in> set ?I" "map_of (details t) ''target'' = Some p"
      by (auto simp: path_targets_iff)
    with none [of t] have "name t \<in> file_tools" by auto
    with t show "\<exists>t \<in> set ?I. name t \<in> file_tools \<and> map_of (details t) ''target'' = Some p"
      by blast
  qed
  have 2: "\<forall>t \<in> set ?I. name t \<notin> file_tools \<longrightarrow>
              map_of (details t) ''target'' = None \<and> path_targets [t] = {}"
    using none by (auto simp: path_targets_def tool_target_def)
  have 3: "(\<forall>t \<in> set ?I. name t \<notin> file_tools) \<longrightarrow> s_files_touched s = []"
  proof
    assume "\<forall>t \<in> set ?I. name t \<notin> file_tools"
    with 1 have "\<forall>p. p \<notin> set (s_files_touched s)" by blast
    then show "s_files_touched s = []" by (cases "s_files_touched s") auto
  qed
  from 1 2 3 show ?thesis by blast
qed

theorem files_touched_sorted_capped_witness:
  "process_session example_python (session_of [read_line, edit_line, read_line, bash_line])
     = Inr (projr (process_session example_python
                     (session_of [read_line, edit_line, read_line, bash_line])))
   \<and> s_files_touched (fst (projr (process_session example_python
         (session_of [read_line, edit_line, read_line, bash_line]))))
       = [''/lib/b.py'', ''/src/a.py'']
   \<and> map tool_target (invocations example_python [read_line, edit_line, read_line, bash_line])
       = [''/src/a.py'', ''/lib/b.py'', ''/src/a.py'', []]
   \<and> sorted (s_files_touched (fst (projr (process_session example_python
         (session_of [read_line, edit_line, read_line, bash_line])))))
   \<and> distinct (s_files_touched (fst (projr (process_session example_python
         (session_of [read_line, edit_line, read_line, bash_line])))))"
proof -
  define r where "r = process_session example_python
    (session_of [read_line, edit_line, read_line, bash_line])"
  have ev: "\<not> isl r \<and> s_files_touched (fst (projr r)) = [''/lib/b.py'', ''/src/a.py'']"
    unfolding r_def by code_simp
  then have eq: "r = Inr (fst (projr r), snd (projr r))"
    by (cases r) auto
  have inv: "map tool_target (invocations example_python [read_line, edit_line, read_line, bash_line])
       = [''/src/a.py'', ''/lib/b.py'', ''/src/a.py'', []]"
    by code_simp
  from files_touched_sorted_capped [OF eq [unfolded r_def]] ev inv
  show ?thesis
    unfolding r_def [symmetric] using eq by simp
qed

theorem files_touched_from_targets_witness:
  "process_session example_python (session_of [read_line, bash_line])
     = Inr (projr (process_session example_python (session_of [read_line, bash_line])))
   \<and> s_files_touched (fst (projr (process_session example_python
         (session_of [read_line, bash_line])))) = [''/src/a.py'']
   \<and> map name (invocations example_python [read_line, bash_line]) = [JStr ''Read'', JStr ''Bash'']
   \<and> map details (invocations example_python [read_line, bash_line])
       = [[(''target'', ''/src/a.py'')], [(''command'', ''ls /tmp'')]]
   \<and> JStr ''Read'' \<in> file_tools \<and> JStr ''Bash'' \<notin> file_tools
   \<and> path_targets (invocations example_python [bash_line]) = {}
   \<and> process_session example_python (session_of [bash_line])
     = Inr (projr (process_session example_python (session_of [bash_line])))
   \<and> s_files_touched (fst (projr (process_session example_python (session_of [bash_line])))) = []"
proof -
  define r where "r = process_session example_python (session_of [read_line, bash_line])"
  define r' where "r' = process_session example_python (session_of [bash_line])"
  have ev: "\<not> isl r \<and> s_files_touched (fst (projr r)) = [''/src/a.py'']"
    unfolding r_def by code_simp
  then have eq: "r = Inr (fst (projr r), snd (projr r))"
    by (cases r) auto
  have ev': "\<not> isl r'"
    unfolding r'_def by code_simp
  then have eq': "r' = Inr (fst (projr r'), snd (projr r'))"
    by (cases r') auto
  have inv: "invocations example_python [read_line, bash_line]
      = [\<lparr>name = JStr ''Read'', details = [(''target'', ''/src/a.py'')]\<rparr>,
         \<lparr>name = JStr ''Bash'', details = [(''command'', ''ls /tmp'')]\<rparr>]"
    by code_simp
  have inv': "invocations example_python [bash_line]
      = [\<lparr>name = JStr ''Bash'', details = [(''command'', ''ls /tmp'')]\<rparr>]"
    by code_simp
  have fl: "file_lines (session_of ls) = ls" for ls
    by (simp add: session_of_def)
  have ft: "JStr ''Read'' \<in> file_tools \<and> JStr ''Bash'' \<notin> file_tools"
    by (simp add: file_tools_def)
  from files_touched_from_targets [OF eq [unfolded r_def]]
    files_touched_from_targets [OF eq' [unfolded r'_def]] ev ft
  show ?thesis
    unfolding r_def [symmetric] r'_def [symmetric] fl inv inv' using eq eq'
    by simp
qed

subsection \<open>Caps of the message texts\<close>

text \<open>
  The text of a content that is a plain string is cut to the cap of the message, and so is
  what each block of a content list contributes (a thinking block contributes its marker
  of at most 165 characters).
\<close>

lemma plain_text_capped:
  "length (extract_text_from_content rt (JStr str) MAX_TEXT_PER_MESSAGE) \<le> 500"
  by (simp add: extract_text_from_content_def MAX_TEXT_PER_MESSAGE_def)

lemma length_block_texts:
  "t \<in> set (block_texts rt n block) \<Longrightarrow> length t \<le> max n 165"
  by (cases block) (auto simp: thinking_preview_def Let_def split: if_splits)

lemma length_context_summary: "length (context_summary rt v) \<le> 1019"
  by (simp add: context_summary_def)

text \<open>
  Claim C2 asks that every message of a conversation flow has at most 500 characters and
  every compression-summary pseudo-message at most 1000. The cap of a message is applied
  to each block of a content list and not to the joined text. On the log of one user
  event with two text blocks of 300 characters each, followed by a summary event with
  1000 characters of summary, the flow holds a user message of 601 characters (the first
  block, a space, the second block) and a pseudo-message of 1019 characters.
\<close>

theorem joined_blocks_uncapped:
  "\<not> isl (process_session example_python (session_of [blocks_line, summary_line]))
   \<and> s_conversation_flow (fst (projr
        (process_session example_python (session_of [blocks_line, summary_line]))))
       = [\<lparr>role = ''user'',
           turn_text = replicate 300 CHR ''a'' @ '' '' @ replicate 300 CHR ''b''\<rparr>,
          \<lparr>role = ''assistant'',
           turn_text = ''[CONTEXT SUMMARY: '' @ replicate 1000 CHR ''x'' @ '']''\<rparr>]
   \<and> length (turn_text (s_conversation_flow (fst (projr
        (process_session example_python (session_of [blocks_line, summary_line])))) ! 0))
       = 601
   \<and> length (turn_text (s_conversation_flow (fst (projr
        (process_session example_python (session_of [blocks_line, summary_line])))) ! 1))
       = 1019"
proof -
  define r where "r = process_session example_python (session_of [blocks_line, summary_line])"
  have ok: "\<not> isl r"
    unfolding r_def by code_simp
  have flow: "s_conversation_flow (fst (projr r))
       = [\<lparr>role = ''user'',
           turn_text = replicate 300 CHR ''a'' @ '' '' @ replicate 300 CHR ''b''\<rparr>,
          \<lparr>role = ''assistant'',
           turn_text = ''[CONTEXT SUMMARY: '' @ replicate 1000 CHR ''x'' @ '']''\<rparr>]"
    unfolding r_def by code_simp
  from ok show ?thesis
    unfolding r_def [symmetric] flow by simp
qed

subsection \<open>Lines that do not parse\<close>

text \<open>No step reads the count of skipped lines, so a step commutes with adding to it.\<close>

lemma more_skipped_fields:
  "timestamps (more_skipped m s) = timestamps s"
  "user_messages (more_skipped m s) = user_messages s"
  "assistant_texts (more_skipped m s) = assistant_texts s"
  "tool_usage (more_skipped m s) = tool_usage s"
  "tool_details (more_skipped m s) = tool_details s"
  "files_touched (more_skipped m s) = files_touched s"
  "models_used (more_skipped m s) = models_used s"
  "total_input_tokens (more_skipped m s) = total_input_tokens s"
  "total_output_tokens (more_skipped m s) = total_output_tokens s"
  "has_summary (more_skipped m s) = has_summary s"
  "git_branch (more_skipped m s) = git_branch s"
  "lines_processed (more_skipped m s) = lines_processed s"
  "lines_skipped (more_skipped m s) = lines_skipped s + m"
  by (simp_all add: more_skipped_def)











lemma process_lines_append:
  "process_lines rt st (xs @ ys)
     = (case process_lines rt st xs of Inl e \<Rightarrow> Inl e | Inr st' \<Rightarrow> process_lines rt st' ys)"
  by (induction xs arbitrary: st) (simp_all split: sum.splits)

lemma build_summary_skip:
  "build_summary rt (f\<lparr>file_lines := lines\<rparr>) (more_skipped m st) = build_summary rt f st"
  by (simp add: build_summary_def more_skipped_fields cong: option.case_cong)







lemma process_lines_with_raising_line:
  assumes "strip deep \<noteq> []" and "json_loads rt (strip deep) = Inl e" and "e \<noteq> JSONDecodeError"
  shows "process_lines rt st (take i lines @ deep # drop i lines)
     = (case process_lines rt st (take i lines) of Inl e' \<Rightarrow> Inl e' | Inr st' \<Rightarrow> Inl e)"
proof -
  have deep: "process_line rt st0 deep = Inl e" for st0
    using assms by (simp add: process_line_def)
  show ?thesis
    unfolding process_lines_append
    by (cases "process_lines rt st (take i lines)") (simp_all add: deep)
qed

lemma process_session_lines:
  "process_session rt (f\<lparr>file_lines := lines\<rparr>)
     = (case process_lines rt initial_state lines of
          Inl e \<Rightarrow> Inl e
        | Inr st \<Rightarrow>
            (case build_summary rt f st of
               Inl e \<Rightarrow> Inl e
             | Inr summary \<Rightarrow> Inr (summary, lines_skipped st)))"
proof -
  have "build_summary rt (f\<lparr>file_lines := lines\<rparr>) st = build_summary rt f st" for st
    using build_summary_skip [where rt = rt and f = f and lines = lines and m = 0 and st = st]
    by (simp add: more_skipped_def)
  then show ?thesis by (simp add: process_session_def cong: sum.case_cong)
qed

text \<open>
  A line on which \<^verbatim>\<open>json.loads\<close> raises another exception ends the pass over the lines:
  the session fails as it would on the lines before it, or with that exception.
\<close>

lemma raising_line_ends_session:
  assumes "strip deep \<noteq> []" and "json_loads rt (strip deep) = Inl e" and "e \<noteq> JSONDecodeError"
  shows "process_session rt (insert_line i deep f)
      = (case process_lines rt initial_state (take i (file_lines f)) of
           Inl e' \<Rightarrow> Inl e' | Inr st' \<Rightarrow> Inl e)"
  unfolding insert_line_def process_session_lines process_lines_with_raising_line [OF assms]
  by (simp split: sum.splits)




section \<open>The cache of summaries\<close>

text \<open>
  What the loop body of \<^verbatim>\<open>main\<close> does right: with the force flag, or without a summary file,
  the session is recomputed; a file that parses is appended as read, without a write and
  without reading the log; a file on which \<^verbatim>\<open>json.load\<close> raises \<^verbatim>\<open>JSONDecodeError\<close> is
  recomputed like an absent one.
\<close>

lemma process_one_force:
  "process_one rt json_dump True st f = recompute rt json_dump st f"
  by (simp add: process_one_def)

lemma process_one_absent:
  "summary_files st (file_session_id f) = None \<Longrightarrow>
   process_one rt json_dump force st f = recompute rt json_dump st f"
  by (simp add: process_one_def)

lemma process_one_cached:
  "summary_files st (file_session_id f) = Some cached \<Longrightarrow>
   json_load rt cached = Inr existing \<Longrightarrow>
   process_one rt json_dump False st f
     = Inr (st\<lparr>all_summaries := all_summaries st @ [Existing existing],
              skipped_count := skipped_count st + 1\<rparr>)"
  by (simp add: process_one_def)

lemma process_one_decode_error:
  "summary_files st (file_session_id f) = Some corrupt \<Longrightarrow>
   json_load rt corrupt = Inl JSONDecodeError \<Longrightarrow>
   process_one rt json_dump force st f = recompute rt json_dump st f"
  by (simp add: process_one_def)

text \<open>Any other exception of \<^verbatim>\<open>json.load\<close> leaves the loop, and with it \<^verbatim>\<open>main\<close>.\<close>

lemma process_one_raises:
  "summary_files st (file_session_id f) = Some corrupt \<Longrightarrow>
   json_load rt corrupt = Inl e \<Longrightarrow> e \<noteq> JSONDecodeError \<Longrightarrow> e \<noteq> KeyError \<Longrightarrow>
   process_one rt json_dump False st f = Inl e"
  by (simp add: process_one_def)

text \<open>
  Claim C9 asks that a corrupt or unparseable cached summary is treated as absent and
  reprocessed, and that no error is propagated. Two summary files of session \<^verbatim>\<open>s1\<close> show
  what the code does. On a file of 2000 opening brackets \<^verbatim>\<open>json.load\<close> raises
  \<^verbatim>\<open>RecursionError\<close>, which the handler does not name: the exception leaves the loop and
  \<^verbatim>\<open>main\<close>, where an absent file gives a recomputed summary. A file that holds only the
  session id parses, so it is reused as it is, and the manifest step then raises
  \<^verbatim>\<open>KeyError\<close> on the missing \<^verbatim>\<open>project\<close>, outside the \<^verbatim>\<open>try\<close> block whose handler names
  \<^verbatim>\<open>KeyError\<close>.
\<close>

theorem corrupt_cache_propagates:
  "json_load example_python deep_line = Inl RecursionError
   \<and> process_one example_python example_dump False (example_run (Some deep_line))
       (session_of [user_line, assistant_line]) = Inl RecursionError
   \<and> run_main example_python example_dump False (example_files (Some deep_line))
       [session_of [user_line, assistant_line]] = Inl RecursionError
   \<and> \<not> isl (run_main example_python example_dump False (example_files None)
       [session_of [user_line, assistant_line]])
   \<and> new_count (fst (projr (run_main example_python example_dump False (example_files None)
       [session_of [user_line, assistant_line]]))) = 1
   \<and> json_load example_python cached_summary = Inr (JObj [(''session_id'', JStr ''s1'')])
   \<and> map_sum id all_summaries
        (process_one example_python example_dump False (example_run (Some cached_summary))
           (session_of [user_line, assistant_line]))
       = Inr [Existing (JObj [(''session_id'', JStr ''s1'')])]
   \<and> run_main example_python example_dump False (example_files (Some cached_summary))
       [session_of [user_line, assistant_line]] = Inl KeyError"
proof -
  define f where "f = session_of [user_line, assistant_line]"
  have sid: "file_session_id f = ''s1''"
    by (simp add: f_def session_of_def)
  have deep: "json_load example_python deep_line = Inl RecursionError"
    by code_simp
  have cached: "json_load example_python cached_summary = Inr (JObj [(''session_id'', JStr ''s1'')])"
    by code_simp
  have ok: "\<not> isl (process_session example_python f)"
    unfolding f_def by code_simp
  then obtain s0 k where r: "process_session example_python f = Inr (s0, k)"
    by (cases "process_session example_python f") auto
  have 1: "process_one example_python example_dump False (example_run (Some deep_line)) f
      = Inl RecursionError"
    by (rule process_one_raises [where corrupt = deep_line])
      (simp_all add: sid example_run_def example_files_def deep)
  have run: "example_run c = \<lparr>summary_files = example_files c, all_summaries = [],
      new_count = 0, skipped_count = 0, error_count = 0, total_lines_skipped = 0\<rparr>" for c
    by (simp add: example_run_def)
  have 2: "run_main example_python example_dump False (example_files (Some deep_line)) [f]
      = Inl RecursionError"
    unfolding run_main_def run [symmetric] by (simp add: 1)
  have "process_one example_python example_dump False (example_run None) f
      = recompute example_python example_dump (example_run None) f"
    by (rule process_one_absent) (simp add: sid example_run_def example_files_def)
  then have absent: "process_one example_python example_dump False (example_run None) f
      = Inr ((example_run None)\<lparr>total_lines_skipped := total_lines_skipped (example_run None) + k,
          all_summaries := all_summaries (example_run None) @ [Computed s0],
          new_count := new_count (example_run None) + 1,
          summary_files := (summary_files (example_run None))(''s1'' \<mapsto> example_dump s0)\<rparr>)"
    by (simp add: recompute_def r sid)
  have 3: "\<not> isl (run_main example_python example_dump False (example_files None) [f])
      \<and> new_count (fst (projr (run_main example_python example_dump False (example_files None)
           [f]))) = 1"
    unfolding run_main_def run [symmetric]
    by (simp add: absent) (simp add: example_run_def)
  have reuse: "process_one example_python example_dump False (example_run (Some cached_summary)) f
      = Inr ((example_run (Some cached_summary))
          \<lparr>all_summaries := all_summaries (example_run (Some cached_summary))
              @ [Existing (JObj [(''session_id'', JStr ''s1'')])],
           skipped_count := skipped_count (example_run (Some cached_summary)) + 1\<rparr>)"
    by (rule process_one_cached [where cached = cached_summary])
      (simp_all add: sid example_run_def example_files_def cached)
  have 4: "map_sum id all_summaries
        (process_one example_python example_dump False (example_run (Some cached_summary)) f)
       = Inr [Existing (JObj [(''session_id'', JStr ''s1'')])]"
    unfolding reuse by (simp add: example_run_def)
  have row: "existing_row (JObj [(''session_id'', JStr ''s1'')]) = Inl KeyError"
    by (simp add: existing_row_def)
  have 5: "run_main example_python example_dump False (example_files (Some cached_summary)) [f]
      = Inl KeyError"
    unfolding run_main_def run [symmetric]
    by (simp add: reuse) (simp add: example_run_def row)
  from deep 1 2 3 cached 4 5 show ?thesis
    unfolding f_def by blast
qed

section \<open>The recommendation list\<close>

text \<open>The list before the cap: the gated recommendations that pass, then the fixed one.\<close>

lemma cascade:
  "(let recs = [];
        recs = (if c1 then recs @ [r1] else recs);
        recs = (if c2 then recs @ [r2] else recs);
        recs = (if c3 then recs @ [r3] else recs);
        recs = (if c4 then recs @ [r4] else recs);
        recs = (if c5 then recs @ [r5] else recs);
        recs = (if c6 then recs @ [r6] else recs);
        recs = recs @ [m]
    in take 5 recs)
   = take 5 (concat (map (\<lambda>(c, r). if c then [r] else [])
                      (zip [c1, c2, c3, c4, c5, c6] [r1, r2, r3, r4, r5, r6])) @ [m])"
  by (cases c1; cases c2; cases c3; cases c4; cases c5; cases c6; simp)

lemma generate_recommendations_candidates:
  obtains r1 r2 r3 r4 r5 r6 m where
    "map title [r1, r2, r3, r4, r5, r6, m] = recommendation_order"
    "generate_recommendations fc n gc st =
       take 5 (concat (map (\<lambda>(c, r). if c then [r] else [])
                      (zip (gates fc n gc) [r1, r2, r3, r4, r5, r6])) @ [m])"
proof -
  let ?r1 = "\<lparr>title = ''Manage Session Length'',
      description = ''You had '' @ str_int (num_get fc ''context_overflow'')
        @ '' context overflow events. ''
        @ ''Use /compact proactively when sessions exceed 20 messages. ''
        @ ''Write session state to a file before context compression so nothing is lost.''\<rparr>"
  let ?r2 = "\<lparr>title = ''Add Subagent Limits'',
      description = ''Tool failures ('' @ str_int (num_get fc ''tool_failure'')
        @ '' events) often come from ''
        @ ''rate limits when spawning too many parallel subagents. ''
        @ ''Limit to 5 concurrent subagents and wait for each batch to complete.''\<rparr>"
  let ?r3 = "\<lparr>title = ''Add Data Verification Guardrails'',
      description = ''Fabricated data was detected in ''
        @ str_int (num_get fc ''fabricated_data'') @ '' session(s). ''
        @ ''Add a CLAUDE.md rule requiring source citations for factual claims, ''
        @ ''and consider a post-tool hook that validates research output quality.''\<rparr>"
  let ?r4 = "\<lparr>title = ''Provide More Upfront Constraints'',
      description = ''Claude took the wrong approach ''
        @ str_int (num_get fc ''wrong_approach'') @ '' times. ''
        @ ''When starting complex tasks, provide explicit constraints and preferred approaches ''
        @ ''upfront rather than letting Claude choose freely.''\<rparr>"
  let ?r5 = "\<lparr>title = ''Build a Research Skill'',
      description = ''Research dominates your usage (''
        @ str_int (num_get gc ''research'') @ '' goal instances). ''
        @ ''Create a custom /research skill that encodes your research workflow, ''
        @ ''including output format, quality checks, and rate-limit-aware batching.''\<rparr>"
  let ?r6 = "\<lparr>title = ''Start Sessions with Context Loading'',
      description = ''Missed context ('' @ str_int (num_get fc ''missed_context'')
        @ '' events) wastes time ''
        @ ''re-explaining prior work. Start each session by having Claude read ''
        @ ''the relevant CLAUDE.md and recent work logs before diving in.''\<rparr>"
  let ?m = "\<lparr>title = ''Run Deep Insights Monthly'',
      description = ''Track how your usage patterns, friction rates, and session quality change ''
        @ ''over time. Monthly reports help you see whether CLAUDE.md improvements ''
        @ ''are actually reducing friction.''\<rparr>"
  have 1: "map title [?r1, ?r2, ?r3, ?r4, ?r5, ?r6, ?m] = recommendation_order"
    by (simp add: recommendation_order_def)
  have 2: "generate_recommendations fc n gc st =
       take 5 (concat (map (\<lambda>(c, r). if c then [r] else [])
                      (zip (gates fc n gc) [?r1, ?r2, ?r3, ?r4, ?r5, ?r6])) @ [?m])"
    unfolding generate_recommendations_def gates_def
    by (rule cascade)
  from 1 2 that show ?thesis by blast
qed

lemma passing_subseq:
  "length cs = length rs \<Longrightarrow>
   subseq (concat (map (\<lambda>(c, r). if c then [r] else []) (zip cs rs))) rs"
  by (induction cs rs rule: list_induct2) auto

lemma passing_length:
  "length cs = length rs \<Longrightarrow>
   length (concat (map (\<lambda>(c, r). if c then [r] else []) (zip cs rs))) = length (filter id cs)"
  by (induction cs rs rule: list_induct2) auto

lemma passing_member:
  assumes "x \<in> set (concat (map (\<lambda>(c, r). if c then [r] else []) (zip cs rs)))"
  shows "\<exists>i < length rs. i < length cs \<and> cs ! i \<and> x = rs ! i"
proof -
  from assms obtain c r where cr: "(c, r) \<in> set (zip cs rs)" and x: "x \<in> set (if c then [r] else [])"
    by auto
  from x have "c" "x = r" by (auto split: if_splits)
  moreover from cr obtain i where "i < length cs" "i < length rs" "cs ! i = c" "rs ! i = r"
    by (auto simp: set_zip)
  ultimately show ?thesis by blast
qed

text \<open>
  Claim C5. The list has at most 5 recommendations; a gated recommendation is in it only
  if its threshold holds; the titles come in the order the engine considers them; when
  fewer than five of the six thresholds hold, the fixed monthly recommendation is in the
  list and is its last entry, and when five or six hold the cap leaves no slot for it.
\<close>

theorem recommendations_gated_capped:
  fixes fc gc :: "(string \<times> int) list" and n :: nat and st :: "(json \<times> nat) list"
  defines "recs \<equiv> generate_recommendations fc n gc st"
  shows "length recs \<le> 5
    \<and> (\<forall>r \<in> set recs.
          (title r = ''Manage Session Length'' \<longrightarrow> num_get fc ''context_overflow'' \<ge> 3)
        \<and> (title r = ''Add Subagent Limits'' \<longrightarrow> num_get fc ''tool_failure'' \<ge> 5)
        \<and> (title r = ''Add Data Verification Guardrails'' \<longrightarrow> num_get fc ''fabricated_data'' \<ge> 1)
        \<and> (title r = ''Provide More Upfront Constraints'' \<longrightarrow> num_get fc ''wrong_approach'' \<ge> 5)
        \<and> (title r = ''Build a Research Skill''
             \<longrightarrow> real_of_int (num_get gc ''research'') > real n * 0.3)
        \<and> (title r = ''Start Sessions with Context Loading''
             \<longrightarrow> num_get fc ''missed_context'' \<ge> 3))
    \<and> subseq (map title recs) recommendation_order
    \<and> (length (filter id (gates fc n gc)) < 5
         \<longrightarrow> recs \<noteq> [] \<and> title (last recs) = ''Run Deep Insights Monthly'')
    \<and> (length (filter id (gates fc n gc)) \<ge> 5
         \<longrightarrow> ''Run Deep Insights Monthly'' \<notin> title ` set recs)"
proof -
  obtain r1 r2 r3 r4 r5 r6 m where
    titles: "map title [r1, r2, r3, r4, r5, r6, m] = recommendation_order"
    and eq: "generate_recommendations fc n gc st =
       take 5 (concat (map (\<lambda>(c, r). if c then [r] else [])
                      (zip (gates fc n gc) [r1, r2, r3, r4, r5, r6])) @ [m])"
    by (rule generate_recommendations_candidates)
  define G where "G = gates fc n gc"
  define R where "R = [r1, r2, r3, r4, r5, r6]"
  define P where "P = concat (map (\<lambda>(c, r). if c then [r] else []) (zip G R))"
  have recs: "recs = take 5 (P @ [m])"
    unfolding recs_def eq P_def G_def R_def ..
  have len: "length G = length R"
    by (simp add: G_def R_def gates_def)
  have lenP: "length P = length (filter id G)"
    unfolding P_def using len by (rule passing_length)
  have d: "distinct recommendation_order" and l: "length recommendation_order = 7"
    by (simp_all add: recommendation_order_def)
  have nth: "recommendation_order ! 0 = ''Manage Session Length''"
    "recommendation_order ! 1 = ''Add Subagent Limits''"
    "recommendation_order ! 2 = ''Add Data Verification Guardrails''"
    "recommendation_order ! 3 = ''Provide More Upfront Constraints''"
    "recommendation_order ! 4 = ''Build a Research Skill''"
    "recommendation_order ! 5 = ''Start Sessions with Context Loading''"
    "recommendation_order ! 6 = ''Run Deep Insights Monthly''"
    by (simp_all add: recommendation_order_def)
  have Gn: "G ! 0 = (num_get fc ''context_overflow'' \<ge> 3)"
    "G ! 1 = (num_get fc ''tool_failure'' \<ge> 5)"
    "G ! 2 = (num_get fc ''fabricated_data'' \<ge> 1)"
    "G ! 3 = (num_get fc ''wrong_approach'' \<ge> 5)"
    "G ! 4 = (real_of_int (num_get gc ''research'') > real n * 0.3)"
    "G ! 5 = (num_get fc ''missed_context'' \<ge> 3)"
    by (simp_all add: G_def gates_def)
  have lenR: "length R = 6"
    by (simp add: R_def)
  have "[r1, r2, r3, r4, r5, r6, m] = R @ [m]"
    by (simp add: R_def)
  with titles have order: "map title (R @ [m]) = recommendation_order"
    by (simp only:)
  have "title m = map title (R @ [m]) ! length R"
    by (simp add: nth_append)
  then have tm: "title m = recommendation_order ! 6"
    unfolding order lenR .
  have tR: "title (R ! i) = recommendation_order ! i" if "i < 6" for i
  proof -
    from that lenR have "title (R ! i) = map title (R @ [m]) ! i"
      by (simp add: nth_append)
    then show ?thesis unfolding order .
  qed
  have 1: "length recs \<le> 5"
    unfolding recs length_take by (rule min.cobounded2)
  have inP: "\<exists>i < 6. G ! i \<and> title r = recommendation_order ! i" if "r \<in> set P" for r
  proof -
    from that have "r \<in> set (concat (map (\<lambda>(c, r). if c then [r] else []) (zip G R)))"
      unfolding P_def .
    from passing_member [OF this] obtain i where i: "i < length R" "G ! i" "r = R ! i"
      by blast
    from i(1) have "i < 6" by (simp add: R_def)
    with i tR show ?thesis by blast
  qed
  have gate: "G ! i" if "r \<in> set recs" "title r = recommendation_order ! i" "i < 6" for r i
  proof -
    from that(1) have "r \<in> set (P @ [m])"
      unfolding recs by (rule in_set_takeD)
    then consider "r = m" | "r \<in> set P" by auto
    then show ?thesis
    proof cases
      case 1
      with tm that(2) have "recommendation_order ! i = recommendation_order ! 6" by simp
      with d l that(3) have "i = 6" by (simp add: nth_eq_iff_index_eq)
      with that(3) show ?thesis by simp
    next
      case 2
      from inP [OF this] obtain j where j: "j < 6" "G ! j" "title r = recommendation_order ! j"
        by blast
      with that(2) have "recommendation_order ! i = recommendation_order ! j" by simp
      with d l that(3) j(1) have "i = j" by (simp add: nth_eq_iff_index_eq)
      with j(2) show ?thesis by simp
    qed
  qed
  have 2: "\<forall>r \<in> set recs.
          (title r = ''Manage Session Length'' \<longrightarrow> num_get fc ''context_overflow'' \<ge> 3)
        \<and> (title r = ''Add Subagent Limits'' \<longrightarrow> num_get fc ''tool_failure'' \<ge> 5)
        \<and> (title r = ''Add Data Verification Guardrails'' \<longrightarrow> num_get fc ''fabricated_data'' \<ge> 1)
        \<and> (title r = ''Provide More Upfront Constraints'' \<longrightarrow> num_get fc ''wrong_approach'' \<ge> 5)
        \<and> (title r = ''Build a Research Skill''
             \<longrightarrow> real_of_int (num_get gc ''research'') > real n * 0.3)
        \<and> (title r = ''Start Sessions with Context Loading''
             \<longrightarrow> num_get fc ''missed_context'' \<ge> 3)"
    unfolding nth [symmetric] Gn [symmetric]
    using gate by simp
  have "subseq P R"
    unfolding P_def using len by (rule passing_subseq)
  then have "subseq (P @ [m]) (R @ [m])"
    by (rule list_emb_append_mono) simp
  moreover have "subseq (take 5 (P @ [m])) (P @ [m])"
    by (rule prefix_imp_subseq) (rule take_is_prefix)
  ultimately have "subseq recs (R @ [m])"
    unfolding recs by (rule subseq_order.trans [rotated])
  then have "subseq (map title recs) (map title (R @ [m]))"
    by (rule subseq_map)
  then have 3: "subseq (map title recs) recommendation_order"
    unfolding order .
  have 4: "length (filter id (gates fc n gc)) < 5
         \<longrightarrow> recs \<noteq> [] \<and> title (last recs) = ''Run Deep Insights Monthly''"
  proof
    assume "length (filter id (gates fc n gc)) < 5"
    then have "length (P @ [m]) \<le> 5" by (simp add: lenP G_def)
    then have "recs = P @ [m]" by (simp add: recs)
    then show "recs \<noteq> [] \<and> title (last recs) = ''Run Deep Insights Monthly''"
      by (simp add: tm nth)
  qed
  have 5: "length (filter id (gates fc n gc)) \<ge> 5
         \<longrightarrow> ''Run Deep Insights Monthly'' \<notin> title ` set recs"
  proof
    assume "length (filter id (gates fc n gc)) \<ge> 5"
    then have "recs = take 5 P" by (simp add: recs lenP G_def)
    then have sub: "set recs \<subseteq> set P" by (simp add: set_take_subset)
    show "''Run Deep Insights Monthly'' \<notin> title ` set recs"
    proof
      assume "''Run Deep Insights Monthly'' \<in> title ` set recs"
      then obtain r where r: "r \<in> set recs" "title r = ''Run Deep Insights Monthly''" by auto
      with sub have "r \<in> set P" by blast
      from inP [OF this] obtain i where i: "i < 6" "title r = recommendation_order ! i"
        by blast
      with r(2) have "recommendation_order ! i = recommendation_order ! 6"
        by (simp add: nth)
      with d l i(1) have "i = 6" by (simp add: nth_eq_iff_index_eq)
      with i(1) show False by simp
    qed
  qed
  from 1 2 3 4 5 show ?thesis by blast
qed

theorem recommendations_gated_capped_witness:
  "map title (generate_recommendations [(''context_overflow'', 3)] 10 [(''research'', 4)] [])
     = [''Manage Session Length'', ''Build a Research Skill'', ''Run Deep Insights Monthly'']
   \<and> gates [(''context_overflow'', 3)] 10 [(''research'', 4)]
     = [True, False, False, False, True, False]
   \<and> length (generate_recommendations [(''context_overflow'', 3)] 10 [(''research'', 4)] []) \<le> 5
   \<and> subseq (map title (generate_recommendations [(''context_overflow'', 3)] 10
                 [(''research'', 4)] [])) recommendation_order
   \<and> title (last (generate_recommendations [(''context_overflow'', 3)] 10 [(''research'', 4)] []))
     = ''Run Deep Insights Monthly''"
proof -
  have g: "gates [(''context_overflow'', 3)] 10 [(''research'', 4)]
     = [True, False, False, False, True, False]"
    by (simp add: gates_def num_get_def)
  have t: "map title (generate_recommendations [(''context_overflow'', 3)] 10 [(''research'', 4)] [])
     = [''Manage Session Length'', ''Build a Research Skill'', ''Run Deep Insights Monthly'']"
    by (simp add: generate_recommendations_def num_get_def)
  from recommendations_gated_capped [of "[(''context_overflow'', 3)]" 10 "[(''research'', 4)]" "[]"]
  show ?thesis
    unfolding g using t by simp
qed

section \<open>The derived rates\<close>


















end
